theory Spec2Isabelle
  imports Main "HOL-Library.Multiset"
begin

section \<open>Errors, machine integers and vector access\<close>

text \<open>
  The two exceptions the code throws, and the undefined behaviour of an unchecked
  \<^verbatim>\<open>operator[]\<close> outside the vector, as values.
\<close>

datatype error =
    runtime_error      \<comment> \<open>\<^verbatim>\<open>std::runtime_error\<close>, thrown by \<^verbatim>\<open>removeElement\<close>\<close>
  | out_of_range       \<comment> \<open>\<^verbatim>\<open>std::out_of_range\<close>, thrown by \<^verbatim>\<open>vector::at\<close>\<close>
  | undefined_behaviour \<comment> \<open>\<^verbatim>\<open>operator[]\<close> with an index outside the vector\<close>

text \<open>
  \<^verbatim>\<open>std::size_t\<close> is an unsigned 64-bit integer: a \<open>nat\<close> below \<open>2 ^ 64\<close>, with the
  wrap-around of \<^verbatim>\<open>++\<close> and \<^verbatim>\<open>--\<close> written out. \<^verbatim>\<open>long\<close> is a signed 64-bit
  integer: the cast from \<^verbatim>\<open>size_t\<close> reads the same 64 bits in two's complement.
\<close>

definition size_t_inc :: "nat \<Rightarrow> nat" where
  "size_t_inc i = (i + 1) mod 2 ^ 64"

definition size_t_dec :: "nat \<Rightarrow> nat" where
  "size_t_dec j = (j + 2 ^ 64 - 1) mod 2 ^ 64"

definition to_long :: "nat \<Rightarrow> int" where
  "to_long n = (if n mod 2 ^ 64 < 2 ^ 63 then int (n mod 2 ^ 64) else int (n mod 2 ^ 64) - 2 ^ 64)"

definition to_size_t :: "int \<Rightarrow> nat" where
  "to_size_t z = nat (z mod 2 ^ 64)"

text \<open>\<^verbatim>\<open>v[i]\<close> is unchecked, \<^verbatim>\<open>v.at(i)\<close> throws when \<open>i \<ge> v.size()\<close>.\<close>

definition vec_index :: "'a list \<Rightarrow> nat \<Rightarrow> error + 'a" where
  "vec_index v i = (if i < length v then Inr (v ! i) else Inl undefined_behaviour)"


section \<open>The container (MyContainer.hpp)\<close>

record 'a MyContainer =
  data :: "'a list"

definition empty_container :: "'a MyContainer" where
  "empty_container = \<lparr>data = []\<rparr>"

text \<open>
  \<^verbatim>\<open>addElement\<close> takes its argument by reference; \<^verbatim>\<open>push_back\<close> gives the same vector for
  a reference to an element of the vector itself as for a copy of its value.
\<close>

definition addElement :: "'a \<Rightarrow> 'a MyContainer \<Rightarrow> 'a MyContainer" where
  "addElement v c = c\<lparr>data := data c @ [v]\<rparr>"

text \<open>
  \<^verbatim>\<open>removeElement(const T& value)\<close> takes a reference too, and \<^verbatim>\<open>std::remove\<close> reads the
  value through it at every comparison, while it overwrites elements of the vector. So
  the argument is a reference: to an object that is not an element of \<^verbatim>\<open>data\<close>, or to
  the element of \<^verbatim>\<open>data\<close> at an index (as in \<^verbatim>\<open>c.removeElement(c.getData()[0])\<close>).
\<close>

datatype 'a cref = Outside 'a | Element nat

fun ref_value :: "'a cref \<Rightarrow> 'a list \<Rightarrow> 'a" where
  "ref_value (Outside v) xs = v"
| "ref_value (Element k) xs = xs ! k"

fun ref_valid :: "'a cref \<Rightarrow> 'a list \<Rightarrow> bool" where
  "ref_valid (Outside v) xs = True"
| "ref_valid (Element k) xs = (k < length xs)"

text \<open>
  \<^verbatim>\<open>std::remove(first, last, value)\<close>, on indices into the vector. It first looks for an
  element equal to the value (\<^verbatim>\<open>std::find\<close>); if there is one, at \<open>first\<close>, it goes on from
  \<open>first + 1\<close> and moves every element that is not equal to the value to the position
  \<open>result\<close>, which it then advances. It returns the vector as it has become and \<open>result\<close>.
\<close>

function find_equal :: "'a cref \<Rightarrow> 'a list \<Rightarrow> nat \<Rightarrow> nat" where
  "find_equal r xs first =
     (if first < length xs \<and> xs ! first \<noteq> ref_value r xs
      then find_equal r xs (first + 1)
      else first)"
  by pat_completeness auto
termination
  by (relation "measure (\<lambda>(r, xs, first). length xs - first)") auto

function remove_loop :: "'a cref \<Rightarrow> 'a list \<Rightarrow> nat \<Rightarrow> nat \<Rightarrow> 'a list \<times> nat" where
  "remove_loop r xs result first =
     (if first < length xs then
        (if xs ! first \<noteq> ref_value r xs
         then remove_loop r (xs[result := xs ! first]) (result + 1) (first + 1)
         else remove_loop r xs result (first + 1))
      else (xs, result))"
  by pat_completeness auto
termination
  by (relation "measure (\<lambda>(r, xs, result, first). length xs - first)") auto

declare find_equal.simps [simp del] remove_loop.simps [simp del]

definition std_remove :: "'a cref \<Rightarrow> 'a list \<Rightarrow> 'a list \<times> nat" where
  "std_remove r xs =
     (let first = find_equal r xs 0
      in if first = length xs then (xs, first)
         else remove_loop r xs first (first + 1))"

text \<open>
  \<^verbatim>\<open>data.erase(std::remove(data.begin(), data.end(), value), data.end())\<close> cuts the vector
  at the position \<^verbatim>\<open>std::remove\<close> returns. \<^verbatim>\<open>removeElement\<close> changes \<^verbatim>\<open>data\<close> first and
  throws afterwards: the result is the exception (or nothing) together with the container
  as the call leaves it. A reference to no element of the vector is undefined behaviour.
\<close>

definition removeElement :: "'a cref \<Rightarrow> 'a MyContainer \<Rightarrow> (error + unit) \<times> 'a MyContainer" where
  "removeElement r c =
     (if \<not> ref_valid r (data c) then (Inl undefined_behaviour, c)
      else
        let before = length (data c);
            (xs, new_end) = std_remove r (data c);
            c' = c\<lparr>data := take new_end xs\<rparr>
        in if length (data c') = before then (Inl runtime_error, c') else (Inr (), c'))"

definition size_of :: "'a MyContainer \<Rightarrow> nat" where
  "size_of c = length (data c)"

definition getData :: "'a MyContainer \<Rightarrow> 'a list" where
  "getData c = data c"

text \<open>
  \<^verbatim>\<open>print\<close> writes to an output stream, modelled as the text written so far. The
  element's own \<^verbatim>\<open>operator<<\<close> is the parameter \<open>shw\<close>; \<^verbatim>\<open>std::endl\<close> writes a newline.
\<close>

definition endl :: string where
  "endl = [CHR 0x0A]"

definition print :: "('a \<Rightarrow> string) \<Rightarrow> 'a MyContainer \<Rightarrow> string \<Rightarrow> string" where
  "print shw c os = foldl (\<lambda>os e. os @ shw e @ '' '') os (data c) @ endl"

definition stream_insert :: "('a \<Rightarrow> string) \<Rightarrow> string \<Rightarrow> 'a MyContainer \<Rightarrow> string" where
  "stream_insert shw os c = print shw c os"

section \<open>The snapshot iterators (Iterators/*.hpp)\<close>

text \<open>
  The six iterator classes have the same two members and the same operators; they differ
  in \<^verbatim>\<open>make\<close> only. One record stands for all six.
\<close>

record 'a iterator =
  view :: "'a list"
  idx :: nat


definition pre_inc :: "'a iterator \<Rightarrow> 'a iterator" where
  "pre_inc it = it\<lparr>idx := size_t_inc (idx it)\<rparr>"

text \<open>Postfix \<^verbatim>\<open>++\<close>: the returned copy of the old state, and the advanced iterator.\<close>

definition post_inc :: "'a iterator \<Rightarrow> 'a iterator \<times> 'a iterator" where
  "post_inc it = (let tmp = it in (tmp, pre_inc it))"

definition equals :: "'a iterator \<Rightarrow> 'a iterator \<Rightarrow> bool" where
  "equals a b = (idx a = idx b \<and> view a = view b)"

definition not_equals :: "'a iterator \<Rightarrow> 'a iterator \<Rightarrow> bool" where
  "not_equals a b = (\<not> equals a b)"

subsection \<open>Insertion order and reverse order\<close>

definition Order_make :: "'a MyContainer \<Rightarrow> 'a iterator \<times> 'a iterator" where
  "Order_make c =
     (let v = getData c
      in (\<lparr>view = v, idx = 0\<rparr>, \<lparr>view = v, idx = length v\<rparr>))"

definition ReverseOrder_make :: "'a MyContainer \<Rightarrow> 'a iterator \<times> 'a iterator" where
  "ReverseOrder_make c =
     (let v = rev (getData c)
      in (\<lparr>view = v, idx = 0\<rparr>, \<lparr>view = v, idx = length v\<rparr>))"

subsection \<open>Ascending and descending order\<close>

text \<open>
  \<^verbatim>\<open>std::sort\<close> belongs to the C++ library, not to this repository: it is the parameter
  \<open>srt\<close>, taking the comparison and the vector. The C++ standard promises that the
  result is a permutation of the input in which no element is followed by one that
  compares before it; it promises nothing about the order of elements neither of which
  compares before the other.
\<close>

definition sorts_by :: "('a \<Rightarrow> 'a \<Rightarrow> bool) \<Rightarrow> ('a list \<Rightarrow> 'a list) \<Rightarrow> bool" where
  "sorts_by cmp f = (\<forall>xs. mset (f xs) = mset xs \<and> sorted_wrt (\<lambda>a b. \<not> cmp b a) (f xs))"

text \<open>\<^verbatim>\<open>std::greater<T>\<close> calls the element's \<^verbatim>\<open>operator>\<close>.\<close>

definition std_greater :: "'a::ord \<Rightarrow> 'a \<Rightarrow> bool" where
  "std_greater a b = (a > b)"

definition std_sort_contract :: "(('a::ord \<Rightarrow> 'a \<Rightarrow> bool) \<Rightarrow> 'a list \<Rightarrow> 'a list) \<Rightarrow> bool" where
  "std_sort_contract srt = (sorts_by (<) (srt (<)) \<and> sorts_by std_greater (srt std_greater))"

definition AscendingOrder_make ::
  "(('a::ord \<Rightarrow> 'a \<Rightarrow> bool) \<Rightarrow> 'a list \<Rightarrow> 'a list) \<Rightarrow> 'a MyContainer \<Rightarrow> 'a iterator \<times> 'a iterator" where
  "AscendingOrder_make srt c =
     (let v = srt (<) (getData c)
      in (\<lparr>view = v, idx = 0\<rparr>, \<lparr>view = v, idx = length v\<rparr>))"

definition DescendingOrder_make ::
  "(('a::ord \<Rightarrow> 'a \<Rightarrow> bool) \<Rightarrow> 'a list \<Rightarrow> 'a list) \<Rightarrow> 'a MyContainer \<Rightarrow> 'a iterator \<times> 'a iterator" where
  "DescendingOrder_make srt c =
     (let v = srt std_greater (getData c)
      in (\<lparr>view = v, idx = 0\<rparr>, \<lparr>view = v, idx = length v\<rparr>))"

subsection \<open>Side-cross order\<close>

text \<open>
  The loop of \<^verbatim>\<open>SideCrossOrder::make\<close>, with the cursors \<open>i\<close> and \<open>j\<close> of type
  \<^verbatim>\<open>size_t\<close>: \<^verbatim>\<open>sorted[i++]\<close> and \<^verbatim>\<open>sorted[j--]\<close> read unchecked and wrap around.
\<close>

function side_cross_loop :: "'a list \<Rightarrow> nat \<Rightarrow> nat \<Rightarrow> bool \<Rightarrow> 'a list \<Rightarrow> error + 'a list" where
  "side_cross_loop sorted_v i j take_low seq =
     (if sorted_v \<noteq> [] \<and> i \<le> j then
        (if take_low then
           (if i < length sorted_v
            then side_cross_loop sorted_v (size_t_inc i) j (\<not> take_low) (seq @ [sorted_v ! i])
            else Inl undefined_behaviour)
         else
           (if j < length sorted_v
            then side_cross_loop sorted_v i (size_t_dec j) (\<not> take_low) (seq @ [sorted_v ! j])
            else Inl undefined_behaviour))
      else Inr seq)"
  by pat_completeness auto
termination
proof (relation "measure (\<lambda>(sorted_v, i, j, take_low, seq).
         if i = 0 \<and> j = 0 \<and> \<not> take_low then 2 ^ 65 + 5
         else 2 * j + (if take_low then 1 else 0))")
  show "wf (measure (\<lambda>(sorted_v :: 'a list, i :: nat, j :: nat, take_low :: bool, seq :: 'a list).
         if i = 0 \<and> j = 0 \<and> \<not> take_low then 2 ^ 65 + 5
         else 2 * j + (if take_low then 1 else 0)))"
    by simp
next
  fix sorted_v :: "'a list" and i j :: nat and take_low :: bool and seq :: "'a list"
  assume "sorted_v \<noteq> [] \<and> i \<le> j" and "take_low" and "i < length sorted_v"
  then show "((sorted_v, size_t_inc i, j, \<not> take_low, seq @ [sorted_v ! i]), (sorted_v, i, j, take_low, seq))
      \<in> measure (\<lambda>(sorted_v, i, j, take_low, seq).
         if i = 0 \<and> j = 0 \<and> \<not> take_low then 2 ^ 65 + 5
         else 2 * j + (if take_low then 1 else 0))"
    by (auto simp: size_t_inc_def)
next
  fix sorted_v :: "'a list" and i j :: nat and take_low :: bool and seq :: "'a list"
  assume a: "sorted_v \<noteq> [] \<and> i \<le> j" "\<not> take_low" "j < length sorted_v"
  have "size_t_dec j = (if j = 0 then 2 ^ 64 - 1 else (j - 1) mod 2 ^ 64)"
    by (simp add: size_t_dec_def mod_if)
  moreover have "(j - 1) mod 2 ^ 64 \<le> j - 1"
    by simp
  ultimately show "((sorted_v, i, size_t_dec j, \<not> take_low, seq @ [sorted_v ! j]), (sorted_v, i, j, take_low, seq))
      \<in> measure (\<lambda>(sorted_v, i, j, take_low, seq).
         if i = 0 \<and> j = 0 \<and> \<not> take_low then 2 ^ 65 + 5
         else 2 * j + (if take_low then 1 else 0))"
    using a by (auto split: if_splits)
qed

definition SideCrossOrder_make ::
  "(('a::ord \<Rightarrow> 'a \<Rightarrow> bool) \<Rightarrow> 'a list \<Rightarrow> 'a list) \<Rightarrow> 'a MyContainer
     \<Rightarrow> error + 'a iterator \<times> 'a iterator" where
  "SideCrossOrder_make srt c =
     (let sorted_v = srt (<) (getData c);
          i = 0;
          j = (if length sorted_v \<noteq> 0 then length sorted_v - 1 else 0)
      in case side_cross_loop sorted_v i j True [] of
           Inl e \<Rightarrow> Inl e
         | Inr seq \<Rightarrow> Inr (\<lparr>view = seq, idx = 0\<rparr>, \<lparr>view = seq, idx = length seq\<rparr>))"

subsection \<open>Middle-out order\<close>

text \<open>
  One pass through the body of the \<^verbatim>\<open>while\<close> loop of \<^verbatim>\<open>MiddleOutOrder::make\<close>, on the
  variables \<open>left\<close>, \<open>right\<close> (of type \<^verbatim>\<open>long\<close>), \<open>take_left\<close> and \<open>seq\<close>: first the
  push, if the chosen side has an element left, then the new flag. \<open>left\<close> is decremented
  only when it is not negative and \<open>right\<close> is incremented only below the size cast to
  \<^verbatim>\<open>long\<close>, so neither step leaves the range of \<^verbatim>\<open>long\<close> and both are steps on \<open>int\<close>.
\<close>

definition middle_out_body ::
  "'a list \<Rightarrow> int \<times> int \<times> bool \<times> 'a list \<Rightarrow> error + int \<times> int \<times> bool \<times> 'a list" where
  "middle_out_body base st =
     (case st of (left, right, take_left, seq) \<Rightarrow>
        let n = length base;
            pushed =
              (if take_left \<and> left \<ge> 0 then
                 (case vec_index base (to_size_t left) of
                    Inl e \<Rightarrow> Inl e
                  | Inr x \<Rightarrow> Inr (left - 1, right, seq @ [x]))
               else if \<not> take_left \<and> right < to_long n then
                 (case vec_index base (to_size_t right) of
                    Inl e \<Rightarrow> Inl e
                  | Inr x \<Rightarrow> Inr (left, right + 1, seq @ [x]))
               else Inr (left, right, seq))
        in case pushed of
             Inl e \<Rightarrow> Inl e
           | Inr (left', right', seq') \<Rightarrow>
               Inr (left', right',
                    (if left' < 0 then False
                     else if right' \<ge> to_long n then True
                     else \<not> take_left),
                    seq'))"

text \<open>
  The loop itself. From an arbitrary state it need not end (both sides used up and the
  sequence still short), so it is a partial function: \<open>None\<close> is a loop that runs
  forever. The last argument counts the passes through the body; the code has no such
  variable.
\<close>

partial_function (option) middle_out_loop ::
  "'a list \<Rightarrow> int \<times> int \<times> bool \<times> 'a list \<Rightarrow> nat \<Rightarrow> (error + 'a list \<times> nat) option" where
  "middle_out_loop base st passes =
     (if length (snd (snd (snd st))) < length base then
        (case middle_out_body base st of
           Inl e \<Rightarrow> Some (Inl e)
         | Inr st' \<Rightarrow> middle_out_loop base st' (passes + 1))
      else Some (Inr (snd (snd (snd st)), passes)))"

declare middle_out_loop.simps [code]

definition MiddleOutOrder_make ::
  "'a MyContainer \<Rightarrow> (error + 'a iterator \<times> 'a iterator) option" where
  "MiddleOutOrder_make c =
     (let base = getData c;
          n = length base;
          seq = []
      in if n = 0 then Some (Inr (\<lparr>view = seq, idx = 0\<rparr>, \<lparr>view = seq, idx = 0\<rparr>))
         else
           let mid = to_long ((n - 1) div 2);
               left = mid - 1;
               right = mid + 1
           in case vec_index base (to_size_t mid) of
                Inl e \<Rightarrow> Some (Inl e)
              | Inr x \<Rightarrow>
                  (case middle_out_loop base (left, right, True, seq @ [x]) 0 of
                     None \<Rightarrow> None
                   | Some (Inl e) \<Rightarrow> Some (Inl e)
                   | Some (Inr (seq', passes)) \<Rightarrow>
                       Some (Inr (\<lparr>view = seq', idx = 0\<rparr>, \<lparr>view = seq', idx = length seq'\<rparr>))))"

subsection \<open>The twelve begin and end methods of the container\<close>

text \<open>
  \<^verbatim>\<open>begin_order\<close>, \<^verbatim>\<open>end_order\<close> and the ten methods like them each call \<^verbatim>\<open>make\<close> of one of
  the six iterator classes and return the first or the second iterator of the pair. The
  kind says which class; the result says whether \<^verbatim>\<open>make\<close> returned (\<open>None\<close>: it did not)
  and with what.
\<close>

datatype order_kind =
  Order | ReverseOrder | AscendingOrder | DescendingOrder | SideCrossOrder | MiddleOutOrder

definition make_of ::
  "order_kind \<Rightarrow> (('a::ord \<Rightarrow> 'a \<Rightarrow> bool) \<Rightarrow> 'a list \<Rightarrow> 'a list) \<Rightarrow> 'a MyContainer
     \<Rightarrow> (error + 'a iterator \<times> 'a iterator) option" where
  "make_of k srt c =
     (case k of
        Order \<Rightarrow> Some (Inr (Order_make c))
      | ReverseOrder \<Rightarrow> Some (Inr (ReverseOrder_make c))
      | AscendingOrder \<Rightarrow> Some (Inr (AscendingOrder_make srt c))
      | DescendingOrder \<Rightarrow> Some (Inr (DescendingOrder_make srt c))
      | SideCrossOrder \<Rightarrow> Some (SideCrossOrder_make srt c)
      | MiddleOutOrder \<Rightarrow> MiddleOutOrder_make c)"

definition begin_iterator ::
  "order_kind \<Rightarrow> (('a::ord \<Rightarrow> 'a \<Rightarrow> bool) \<Rightarrow> 'a list \<Rightarrow> 'a list) \<Rightarrow> 'a MyContainer
     \<Rightarrow> (error + 'a iterator) option" where
  "begin_iterator k srt c =
     (case make_of k srt c of
        None \<Rightarrow> None
      | Some (Inl e) \<Rightarrow> Some (Inl e)
      | Some (Inr p) \<Rightarrow> Some (Inr (fst p)))"

definition end_iterator ::
  "order_kind \<Rightarrow> (('a::ord \<Rightarrow> 'a \<Rightarrow> bool) \<Rightarrow> 'a list \<Rightarrow> 'a list) \<Rightarrow> 'a MyContainer
     \<Rightarrow> (error + 'a iterator) option" where
  "end_iterator k srt c =
     (case make_of k srt c of
        None \<Rightarrow> None
      | Some (Inl e) \<Rightarrow> Some (Inl e)
      | Some (Inr p) \<Rightarrow> Some (Inr (snd p)))"

section \<open>The vectors as objects in a store\<close>

text \<open>
  Whether an iterator sees a later change of the container depends on whether its
  \<^verbatim>\<open>view\<close> is the container's \<^verbatim>\<open>data\<close> or a copy of it. Here every \<^verbatim>\<open>std::vector\<close> is an
  object at an address of a store. The container is the address of its \<^verbatim>\<open>data\<close>;
  \<^verbatim>\<open>getData\<close> returns a reference, that is this address; constructing a vector from another
  one (\<^verbatim>\<open>std::vector<T> v = c.getData()\<close>, the by-value parameter of the iterator's
  constructor) makes a new object with the same elements.
\<close>

type_synonym addr = nat

record 'a store =
  cells :: "addr \<Rightarrow> 'a list option"
  next_addr :: addr

definition new_vector :: "'a list \<Rightarrow> 'a store \<Rightarrow> addr \<times> 'a store" where
  "new_vector xs s =
     (next_addr s, s\<lparr>cells := (cells s)(next_addr s \<mapsto> xs), next_addr := next_addr s + 1\<rparr>)"

definition getData_ref :: "addr \<Rightarrow> addr" where
  "getData_ref this = this"

text \<open>The two mutating methods write the vector at the container's address, in place.\<close>

definition st_addElement :: "'a \<Rightarrow> addr \<Rightarrow> 'a store \<Rightarrow> 'a store" where
  "st_addElement v this s =
     (case cells s this of
        None \<Rightarrow> s
      | Some xs \<Rightarrow> s\<lparr>cells := (cells s)(this \<mapsto> data (addElement v \<lparr>data = xs\<rparr>))\<rparr>)"

definition st_removeElement ::
  "'a cref \<Rightarrow> addr \<Rightarrow> 'a store \<Rightarrow> (error + unit) \<times> 'a store" where
  "st_removeElement r this s =
     (case cells s this of
        None \<Rightarrow> (Inl undefined_behaviour, s)
      | Some xs \<Rightarrow>
          (fst (removeElement r \<lparr>data = xs\<rparr>),
           s\<lparr>cells := (cells s)(this \<mapsto> data (snd (removeElement r \<lparr>data = xs\<rparr>)))\<rparr>))"

text \<open>
  An iterator object: the address of the vector it owns, and its index. \<^verbatim>\<open>make\<close> reads the
  container's vector through the reference, computes the pair as above, and each of the
  two iterators it returns owns a new vector.
\<close>

record iterator_obj =
  view_ref :: addr
  cursor :: nat

definition st_make ::
  "order_kind \<Rightarrow> (('a::ord \<Rightarrow> 'a \<Rightarrow> bool) \<Rightarrow> 'a list \<Rightarrow> 'a list) \<Rightarrow> addr \<Rightarrow> 'a store
     \<Rightarrow> (error + iterator_obj \<times> iterator_obj) option \<times> 'a store" where
  "st_make k srt this s =
     (case cells s (getData_ref this) of
        None \<Rightarrow> (Some (Inl undefined_behaviour), s)
      | Some xs \<Rightarrow>
          (case make_of k srt \<lparr>data = xs\<rparr> of
             None \<Rightarrow> (None, s)
           | Some (Inl e) \<Rightarrow> (Some (Inl e), s)
           | Some (Inr p) \<Rightarrow>
               (let (a1, s1) = new_vector (view (fst p)) s;
                    (a2, s2) = new_vector (view (snd p)) s1
                in (Some (Inr (\<lparr>view_ref = a1, cursor = idx (fst p)\<rparr>,
                               \<lparr>view_ref = a2, cursor = idx (snd p)\<rparr>)), s2))))"

text \<open>The iterator an iterator object stands for in a store: its vector, read now.\<close>

definition iterator_value :: "iterator_obj \<Rightarrow> 'a store \<Rightarrow> 'a iterator option" where
  "iterator_value it s =
     (case cells s (view_ref it) of
        None \<Rightarrow> None
      | Some v \<Rightarrow> Some \<lparr>view = v, idx = cursor it\<rparr>)"

text \<open>
  A later use of the container: a sequence of \<^verbatim>\<open>addElement\<close> and \<^verbatim>\<open>removeElement\<close> calls,
  the caller catching what \<^verbatim>\<open>removeElement\<close> throws.
\<close>

datatype 'a mutation = Add 'a | Remove "'a cref"

fun mutate :: "'a mutation \<Rightarrow> 'a MyContainer \<Rightarrow> 'a MyContainer" where
  "mutate (Add v) c = addElement v c"
| "mutate (Remove r) c = snd (removeElement r c)"

fun st_mutate :: "addr \<Rightarrow> 'a mutation \<Rightarrow> 'a store \<Rightarrow> 'a store" where
  "st_mutate this (Add v) s = st_addElement v this s"
| "st_mutate this (Remove r) s = snd (st_removeElement r this s)"

section \<open>Reference definitions\<close>

subsection \<open>A sorting function within the contract of the library\<close>

text \<open>
  Insertion sort by a comparison \<open>cmp\<close>: an element is put in front of the first element
  that is not before it, so elements neither of which is before the other stay in the
  order of the input. This is the stable sort by \<open>cmp\<close>.
\<close>

fun insert_by :: "('a \<Rightarrow> 'a \<Rightarrow> bool) \<Rightarrow> 'a \<Rightarrow> 'a list \<Rightarrow> 'a list" where
  "insert_by cmp x [] = [x]"
| "insert_by cmp x (y # ys) = (if cmp y x then y # insert_by cmp x ys else x # y # ys)"

definition stable_sort :: "('a \<Rightarrow> 'a \<Rightarrow> bool) \<Rightarrow> 'a list \<Rightarrow> 'a list" where
  "stable_sort cmp xs = foldr (insert_by cmp) xs []"

text \<open>
  A second sorting function: it sorts the reversed input, so it returns elements neither
  of which is before the other in the reverse of their input order.
\<close>

definition tie_reversing_sort :: "('a \<Rightarrow> 'a \<Rightarrow> bool) \<Rightarrow> 'a list \<Rightarrow> 'a list" where
  "tie_reversing_sort cmp xs = stable_sort cmp (rev xs)"

text \<open>
  What the C++ standard asks of a comparison passed to \<^verbatim>\<open>std::sort\<close>: a strict weak
  ordering.
\<close>

definition strict_weak_order :: "('a \<Rightarrow> 'a \<Rightarrow> bool) \<Rightarrow> bool" where
  "strict_weak_order cmp =
     ((\<forall>a b. cmp a b \<longrightarrow> \<not> cmp b a) \<and> (\<forall>a b c. cmp a c \<longrightarrow> cmp a b \<or> cmp b c))"

subsection \<open>The traversal orders in the words of the specification\<close>

text \<open>
  Side-cross: take alternately from the low end and from the high end of a sequence, the
  flag saying whose turn it is.
\<close>

function alternate_ends :: "bool \<Rightarrow> 'a list \<Rightarrow> 'a list" where
  "alternate_ends low [] = []"
| "alternate_ends True (x # xs) = x # alternate_ends False xs"
| "alternate_ends False (x # xs) = last (x # xs) # alternate_ends True (butlast (x # xs))"
  by pat_completeness auto
termination
  by (relation "measure (\<lambda>(low, xs). length xs)") auto

text \<open>
  Middle-out: the element at index \<open>(n - 1) div 2\<close>, then alternately one step to the left
  and one to the right of it, the left first; when one side is used up, the rest of the
  other (\<^const>\<open>splice\<close> alternates between two lists in this way).
\<close>

definition middle_out_spec :: "'a list \<Rightarrow> 'a list" where
  "middle_out_spec xs =
     (if xs = [] then []
      else let m = (length xs - 1) div 2
           in xs ! m # splice (rev (take m xs)) (drop (Suc m) xs))"

text \<open>
  The sequence each of the six orders asks for.
\<close>

definition order_seq ::
  "order_kind \<Rightarrow> (('a::ord \<Rightarrow> 'a \<Rightarrow> bool) \<Rightarrow> 'a list \<Rightarrow> 'a list) \<Rightarrow> 'a list \<Rightarrow> 'a list" where
  "order_seq k srt xs =
     (case k of
        Order \<Rightarrow> xs
      | ReverseOrder \<Rightarrow> rev xs
      | AscendingOrder \<Rightarrow> srt (<) xs
      | DescendingOrder \<Rightarrow> srt std_greater xs
      | SideCrossOrder \<Rightarrow> alternate_ends True (srt (<) xs)
      | MiddleOutOrder \<Rightarrow> middle_out_spec xs)"

section \<open>Properties of the container\<close>

lemma find_equal_bounds:
  "first \<le> length xs \<Longrightarrow> first \<le> find_equal r xs first \<and> find_equal r xs first \<le> length xs"
proof (induction r xs first rule: find_equal.induct)
  case (1 r xs first)
  show ?case
  proof (cases "first < length xs \<and> xs ! first \<noteq> ref_value r xs")
    case True
    then have eq: "find_equal r xs first = find_equal r xs (first + 1)"
      by (subst find_equal.simps) simp
    from True have "first + 1 \<le> length xs" by simp
    with True "1.IH" have "first + 1 \<le> find_equal r xs (first + 1)
        \<and> find_equal r xs (first + 1) \<le> length xs" by blast
    with eq show ?thesis by simp
  next
    case False
    then have "find_equal r xs first = first"
      by (subst find_equal.simps) (simp only: if_False)
    with "1.prems" show ?thesis by simp
  qed
qed

lemma find_equal_found:
  "find_equal r xs first < length xs \<Longrightarrow> xs ! find_equal r xs first = ref_value r xs"
proof (induction r xs first rule: find_equal.induct)
  case (1 r xs first)
  show ?case
  proof (cases "first < length xs \<and> xs ! first \<noteq> ref_value r xs")
    case True
    then have eq: "find_equal r xs first = find_equal r xs (first + 1)"
      by (subst find_equal.simps) simp
    with "1.prems" have "find_equal r xs (first + 1) < length xs" by simp
    with True "1.IH" have "xs ! find_equal r xs (first + 1) = ref_value r xs" by blast
    with eq show ?thesis by simp
  next
    case False
    then have eq: "find_equal r xs first = first"
      by (subst find_equal.simps) (simp only: if_False)
    with "1.prems" False show ?thesis by simp
  qed
qed

lemma find_equal_before:
  "first \<le> i \<Longrightarrow> i < find_equal r xs first \<Longrightarrow> i < length xs \<Longrightarrow> xs ! i \<noteq> ref_value r xs"
proof (induction r xs first rule: find_equal.induct)
  case (1 r xs first)
  show ?case
  proof (cases "first < length xs \<and> xs ! first \<noteq> ref_value r xs")
    case True
    then have eq: "find_equal r xs first = find_equal r xs (first + 1)"
      by (subst find_equal.simps) simp
    show ?thesis
    proof (cases "i = first")
      case True
      with \<open>first < length xs \<and> xs ! first \<noteq> ref_value r xs\<close> show ?thesis by simp
    next
      case False
      with "1.prems"(1) have "first + 1 \<le> i" by simp
      moreover have "i < find_equal r xs (first + 1)" using "1.prems"(2) eq by simp
      ultimately show ?thesis using True "1.IH" "1.prems"(3) by blast
    qed
  next
    case False
    then have "find_equal r xs first = first"
      by (subst find_equal.simps) (simp only: if_False)
    with "1.prems" show ?thesis by simp
  qed
qed

lemma remove_loop_bounds:
  "remove_loop r xs result first = (xs', e) \<Longrightarrow>
     length xs' = length xs \<and> e \<le> result + (length xs - first)"
proof (induction r xs result first arbitrary: xs' e rule: remove_loop.induct)
  case (1 r xs result first)
  show ?case
  proof (cases "first < length xs")
    case False
    with "1.prems" show ?thesis by (subst (asm) remove_loop.simps) simp
  next
    case lt: True
    show ?thesis
    proof (cases "xs ! first \<noteq> ref_value r xs")
      case True
      with lt "1.prems" have
        "remove_loop r (xs[result := xs ! first]) (result + 1) (first + 1) = (xs', e)"
        by (subst (asm) remove_loop.simps) simp
      with lt True "1.IH"(1) have "length xs' = length (xs[result := xs ! first])
          \<and> e \<le> result + 1 + (length (xs[result := xs ! first]) - (first + 1))"
        by blast
      then have "length xs' = length xs" "e \<le> result + 1 + (length xs - (first + 1))"
        by simp_all
      with lt show ?thesis by linarith
    next
      case False
      with lt "1.prems" have "remove_loop r xs result (first + 1) = (xs', e)"
        by (subst (asm) remove_loop.simps) simp
      with lt False "1.IH"(2) have "length xs' = length xs \<and> e \<le> result + (length xs - (first + 1))"
        by blast
      then show ?thesis by linarith
    qed
  qed
qed

lemma remove_loop_outside:
  "remove_loop (Outside v) xs result first = (xs', e) \<Longrightarrow> result < first \<Longrightarrow> first \<le> length xs \<Longrightarrow>
     take e xs' = take result xs @ filter (\<lambda>x. x \<noteq> v) (drop first xs)"
proof (induction "Outside v" xs result first arbitrary: xs' e rule: remove_loop.induct)
  case (1 xs result first)
  show ?case
  proof (cases "first < length xs")
    case False
    with "1.prems" show ?thesis by (subst (asm) remove_loop.simps) simp
  next
    case lt: True
    have dr: "drop first xs = xs ! first # drop (first + 1) xs"
      using lt by (simp add: Cons_nth_drop_Suc)
    show ?thesis
    proof (cases "xs ! first \<noteq> v")
      case True
      let ?ys = "xs[result := xs ! first]"
      from True lt "1.prems"(1) have
        "remove_loop (Outside v) ?ys (result + 1) (first + 1) = (xs', e)"
        by (subst (asm) remove_loop.simps) simp
      then have "take e xs' = take (result + 1) ?ys @ filter (\<lambda>x. x \<noteq> v) (drop (first + 1) ?ys)"
        using lt True "1.prems"(2) by (intro "1.hyps"(1)) simp_all
      moreover have "take (result + 1) ?ys = take result xs @ [xs ! first]"
        using "1.prems"(2) lt by (simp add: take_Suc_conv_app_nth)
      moreover have "drop (first + 1) ?ys = drop (first + 1) xs"
        using "1.prems"(2) by simp
      ultimately show ?thesis using True dr by simp
    next
      case False
      with lt "1.prems"(1) have "remove_loop (Outside v) xs result (first + 1) = (xs', e)"
        by (subst (asm) remove_loop.simps) simp
      then have "take e xs' = take result xs @ filter (\<lambda>x. x \<noteq> v) (drop (first + 1) xs)"
        using lt False "1.prems"(2) by (intro "1.hyps"(2)) simp_all
      with False dr show ?thesis by simp
    qed
  qed
qed

lemma filter_all_nth:
  assumes "\<And>i. i < length xs \<Longrightarrow> P (xs ! i)"
  shows "filter P xs = xs"
proof -
  have "P x" if "x \<in> set xs" for x
  proof -
    from that obtain i where "i < length xs" "xs ! i = x"
      by (auto simp: in_set_conv_nth)
    with assms show ?thesis by blast
  qed
  then show ?thesis by (simp add: filter_id_conv)
qed

lemma std_remove_outside:
  assumes "std_remove (Outside v) xs = (xs', e)"
  shows "take e xs' = filter (\<lambda>x. x \<noteq> v) xs"
proof -
  let ?f = "find_equal (Outside v) xs 0"
  have fb: "?f \<le> length xs"
    using find_equal_bounds [of 0 xs "Outside v"] by simp
  have before: "xs ! i \<noteq> v" if "i < ?f" for i
    using find_equal_before [of 0 i "Outside v" xs] that fb by simp
  show ?thesis
  proof (cases "?f = length xs")
    case True
    with assms have "xs' = xs" "e = length xs"
      by (auto simp: std_remove_def Let_def)
    moreover have "filter (\<lambda>x. x \<noteq> v) xs = xs"
      using before True by (intro filter_all_nth) simp
    ultimately show ?thesis by simp
  next
    case False
    with fb have lt: "?f < length xs" by simp
    from False assms have loop: "remove_loop (Outside v) xs ?f (?f + 1) = (xs', e)"
      by (simp add: std_remove_def Let_def)
    have "take e xs' = take ?f xs @ filter (\<lambda>x. x \<noteq> v) (drop (?f + 1) xs)"
      using loop lt by (intro remove_loop_outside) simp_all
    moreover have "filter (\<lambda>x. x \<noteq> v) (take ?f xs) = take ?f xs"
      using before lt by (intro filter_all_nth) simp
    moreover have "xs ! ?f = v"
      using find_equal_found [OF lt] by simp
    moreover have "filter (\<lambda>x. x \<noteq> v) xs =
        filter (\<lambda>x. x \<noteq> v) (take ?f xs) @ filter (\<lambda>x. x \<noteq> v) [xs ! ?f]
          @ filter (\<lambda>x. x \<noteq> v) (drop (?f + 1) xs)"
    proof -
      have "filter (\<lambda>x. x \<noteq> v) (take ?f xs @ xs ! ?f # drop (Suc ?f) xs) =
        filter (\<lambda>x. x \<noteq> v) (take ?f xs) @ filter (\<lambda>x. x \<noteq> v) [xs ! ?f]
          @ filter (\<lambda>x. x \<noteq> v) (drop (?f + 1) xs)"
        by simp
      then show ?thesis by (simp only: id_take_nth_drop [OF lt, symmetric])
    qed
    ultimately show ?thesis by simp
  qed
qed

text \<open>
  With an argument that is not an element of the vector, \<^verbatim>\<open>removeElement\<close> throws exactly
  when no element equals the value, and leaves the elements other than the value, in
  their order.
\<close>

lemma removeElement_outside:
  "(fst (removeElement (Outside v) c) = Inl runtime_error \<longleftrightarrow> v \<notin> set (data c))
   \<and> (v \<notin> set (data c) \<longrightarrow> snd (removeElement (Outside v) c) = c)
   \<and> (v \<in> set (data c) \<longrightarrow> fst (removeElement (Outside v) c) = Inr ())
   \<and> data (snd (removeElement (Outside v) c)) = filter (\<lambda>x. x \<noteq> v) (data c)"
proof -
  obtain xs' e where sr: "std_remove (Outside v) (data c) = (xs', e)"
    by (cases "std_remove (Outside v) (data c)")
  then have tk: "take e xs' = filter (\<lambda>x. x \<noteq> v) (data c)"
    by (rule std_remove_outside)
  have len: "length (filter (\<lambda>x. x \<noteq> v) (data c)) = length (data c) \<longleftrightarrow> v \<notin> set (data c)"
  proof (cases "v \<in> set (data c)")
    case True
    then have "length (filter (\<lambda>x. x \<noteq> v) (data c)) < length (data c)"
      by (rule length_filter_less) simp
    with True show ?thesis by simp
  next
    case False
    then have "filter (\<lambda>x. x \<noteq> v) (data c) = data c"
      by (auto simp: filter_id_conv)
    with False show ?thesis by simp
  qed
  have d: "data (snd (removeElement (Outside v) c)) = filter (\<lambda>x. x \<noteq> v) (data c)"
    using sr tk by (simp add: removeElement_def Let_def del: length_take)
  have a: "fst (removeElement (Outside v) c) = Inl runtime_error \<longleftrightarrow> v \<notin> set (data c)"
    using sr tk len by (simp add: removeElement_def Let_def del: length_take)
  have b: "fst (removeElement (Outside v) c) = Inr ()" if "v \<in> set (data c)"
    using sr tk len that by (simp add: removeElement_def Let_def del: length_take)
  have e: "snd (removeElement (Outside v) c) = c" if "v \<notin> set (data c)"
  proof -
    from that have "filter (\<lambda>x. x \<noteq> v) (data c) = data c"
      by (auto simp: filter_id_conv)
    with sr tk show ?thesis by (simp add: removeElement_def Let_def del: length_take)
  qed
  from a b d e show ?thesis by blast
qed

text \<open>
  With any argument, \<^verbatim>\<open>removeElement\<close> throws exactly when no element equals the value the
  argument refers to at the time of the call.
\<close>

lemma removeElement_throws_iff:
  assumes "ref_valid r (data c)"
  shows "fst (removeElement r c) = Inl runtime_error \<longleftrightarrow> ref_value r (data c) \<notin> set (data c)"
proof -
  let ?xs = "data c"
  let ?f = "find_equal r ?xs 0"
  have fb: "?f \<le> length ?xs"
    using find_equal_bounds [of 0 ?xs r] by simp
  show ?thesis
  proof (cases "?f = length ?xs")
    case True
    have "?xs ! i \<noteq> ref_value r ?xs" if "i < length ?xs" for i
      using find_equal_before [of 0 i r ?xs] that True by simp
    then have "ref_value r ?xs \<notin> set ?xs"
      by (auto simp: in_set_conv_nth)
    moreover have "fst (removeElement r c) = Inl runtime_error"
      using assms True by (simp add: removeElement_def std_remove_def Let_def)
    ultimately show ?thesis by simp
  next
    case False
    with fb have lt: "?f < length ?xs" by simp
    obtain xs' e where loop: "remove_loop r ?xs ?f (?f + 1) = (xs', e)"
      by (cases "remove_loop r ?xs ?f (?f + 1)")
    then have "length xs' = length ?xs \<and> e \<le> ?f + (length ?xs - (?f + 1))"
      by (rule remove_loop_bounds)
    with lt have "e < length xs'" by linarith
    then have "length (take e xs') \<noteq> length xs'" by simp
    with \<open>length xs' = length ?xs \<and> e \<le> ?f + (length ?xs - (?f + 1))\<close>
    have "length (take e xs') \<noteq> length ?xs" by simp
    with assms False loop have "fst (removeElement r c) = Inr ()"
      by (simp add: removeElement_def std_remove_def Let_def)
    moreover have "ref_value r ?xs \<in> set ?xs"
      using find_equal_found [OF lt] lt by (metis nth_mem)
    ultimately show ?thesis by simp
  qed
qed

text \<open>
  Claim C4: \<^verbatim>\<open>removeElement\<close> throws exactly when no element equals the value, and
  otherwise deletes every element equal to it and keeps the others in their order. The
  code does not do this when the argument is an element of the container itself:
  \<^verbatim>\<open>c.removeElement(c.getData()[0])\<close> on \<open>[1,2,1,2]\<close> leaves \<open>[2,1]\<close>, where a \<open>1\<close> is left
  and a \<open>2\<close> is deleted; called with a \<open>1\<close> that is not an element of the vector, it
  leaves \<open>[2,2]\<close>, the elements other than \<open>1\<close>.
\<close>

theorem removeElement_aliased_value:
  "removeElement (Element 0) \<lparr>data = [1, 2, 1, 2 :: int]\<rparr> = (Inr (), \<lparr>data = [2, 1]\<rparr>)
   \<and> removeElement (Outside 1) \<lparr>data = [1, 2, 1, 2 :: int]\<rparr> = (Inr (), \<lparr>data = [2, 2]\<rparr>)
   \<and> filter (\<lambda>x. x \<noteq> 1) [1, 2, 1, 2 :: int] = [2, 2]"
  by (simp add: removeElement_def std_remove_def Let_def find_equal.simps remove_loop.simps)

lemma foldl_print:
  "foldl (\<lambda>os e. os @ shw e @ '' '') os xs = os @ concat (map (\<lambda>e. shw e @ '' '') xs)"
  by (induction xs arbitrary: os) simp_all

text \<open>
  Claim C8. Printing a container appends to the stream the text of each element in
  insertion order, each followed by one space, and then a newline; for the empty
  container on an empty stream the text is the newline alone.
\<close>

theorem print_text:
  "print shw c os = os @ concat (map (\<lambda>e. shw e @ '' '') (data c)) @ [CHR 0x0A]
   \<and> stream_insert shw os c = os @ concat (map (\<lambda>e. shw e @ '' '') (data c)) @ [CHR 0x0A]
   \<and> stream_insert shw [] empty_container = [CHR 0x0A]"
  by (simp add: print_def stream_insert_def foldl_print endl_def empty_container_def)

section \<open>Properties of sorting\<close>

lemma mset_insert_by: "mset (insert_by cmp x ys) = add_mset x (mset ys)"
  by (induction ys) auto

lemma mset_stable_sort: "mset (stable_sort cmp xs) = mset xs"
  by (induction xs) (auto simp: stable_sort_def mset_insert_by)


lemma set_insert_by: "set (insert_by cmp x ys) = insert x (set ys)"
  using mset_insert_by [of cmp x ys, THEN arg_cong, of set_mset] by simp

lemma sorted_insert_by:
  assumes sw: "strict_weak_order cmp"
    and srt: "sorted_wrt (\<lambda>a b. \<not> cmp b a) ys"
  shows "sorted_wrt (\<lambda>a b. \<not> cmp b a) (insert_by cmp x ys)"
  using srt
proof (induction ys)
  case Nil
  show ?case by simp
next
  case (Cons y ys)
  from sw have asym: "\<And>a b. cmp a b \<Longrightarrow> \<not> cmp b a"
    and negtrans: "\<And>a b c. cmp a c \<Longrightarrow> cmp a b \<or> cmp b c"
    unfolding strict_weak_order_def by blast+
  show ?case
  proof (cases "cmp y x")
    case True
    with Cons asym show ?thesis
      by (auto simp: set_insert_by)
  next
    case False
    have "\<not> cmp z x" if "z \<in> set ys" for z
    proof
      assume "cmp z x"
      then have "cmp z y \<or> cmp y x" by (rule negtrans)
      with False that Cons.prems show False by auto
    qed
    with False Cons.prems show ?thesis by auto
  qed
qed

lemma sorted_stable_sort:
  "strict_weak_order cmp \<Longrightarrow> sorted_wrt (\<lambda>a b. \<not> cmp b a) (stable_sort cmp xs)"
proof (induction xs)
  case Nil
  show ?case by (simp add: stable_sort_def)
next
  case (Cons x xs)
  then have "sorted_wrt (\<lambda>a b. \<not> cmp b a) (insert_by cmp x (stable_sort cmp xs))"
    by (intro sorted_insert_by) auto
  then show ?case by (simp add: stable_sort_def)
qed

lemma stable_sort_sorts_by: "strict_weak_order cmp \<Longrightarrow> sorts_by cmp (stable_sort cmp)"
  by (simp add: sorts_by_def mset_stable_sort sorted_stable_sort)

lemma tie_reversing_sort_sorts_by:
  "strict_weak_order cmp \<Longrightarrow> sorts_by cmp (tie_reversing_sort cmp)"
  by (simp add: sorts_by_def tie_reversing_sort_def mset_stable_sort sorted_stable_sort)

lemma strict_weak_order_less: "strict_weak_order ((<) :: 'a::linorder \<Rightarrow> 'a \<Rightarrow> bool)"
  unfolding strict_weak_order_def by auto

lemma strict_weak_order_greater: "strict_weak_order (std_greater :: 'a::linorder \<Rightarrow> 'a \<Rightarrow> bool)"
  unfolding strict_weak_order_def std_greater_def by auto

lemma std_sort_contract_stable_sort:
  "std_sort_contract (stable_sort :: ('a::linorder \<Rightarrow> 'a \<Rightarrow> bool) \<Rightarrow> 'a list \<Rightarrow> 'a list)"
  by (simp add: std_sort_contract_def stable_sort_sorts_by strict_weak_order_less
      strict_weak_order_greater)



lemma sorted_perm_unique:
  assumes tot: "\<And>a b. \<not> cmp a b \<Longrightarrow> \<not> cmp b a \<Longrightarrow> a = b"
  shows "mset ys = mset zs \<Longrightarrow> sorted_wrt (\<lambda>a b. \<not> cmp b a) ys
     \<Longrightarrow> sorted_wrt (\<lambda>a b. \<not> cmp b a) zs \<Longrightarrow> ys = zs"
proof (induction ys arbitrary: zs)
  case Nil
  then show ?case by simp
next
  case (Cons y ys)
  then obtain z zs' where zs: "zs = z # zs'"
    by (cases zs) auto
  have "y = z"
  proof (rule ccontr)
    assume ne: "y \<noteq> z"
    from Cons.prems(1) zs have "y \<in> set (z # zs')" "z \<in> set (y # ys)"
      by (metis list.set_intros(1) mset_eq_setD)+
    with ne have "y \<in> set zs'" "z \<in> set ys" by auto
    with Cons.prems(2,3) zs have "\<not> cmp y z" "\<not> cmp z y" by auto
    with tot ne show False by blast
  qed
  with Cons zs show ?case by auto
qed

lemma std_sort_contract_tie_reversing_sort:
  "std_sort_contract (tie_reversing_sort :: ('a::linorder \<Rightarrow> 'a \<Rightarrow> bool) \<Rightarrow> 'a list \<Rightarrow> 'a list)"
  by (simp add: std_sort_contract_def tie_reversing_sort_sorts_by strict_weak_order_less
      strict_weak_order_greater)

lemma sorts_by_unique:
  assumes "sorts_by cmp f" and "sorts_by cmp g"
    and "\<And>a b. \<not> cmp a b \<Longrightarrow> \<not> cmp b a \<Longrightarrow> a = b"
  shows "f xs = g xs"
proof (rule sorted_perm_unique [where cmp = cmp])
  show "mset (f xs) = mset (g xs)"
    using assms(1,2) by (simp add: sorts_by_def)
  show "sorted_wrt (\<lambda>a b. \<not> cmp b a) (f xs)" "sorted_wrt (\<lambda>a b. \<not> cmp b a) (g xs)"
    using assms(1,2) by (simp_all add: sorts_by_def)
qed (use assms(3) in blast)

lemma sorts_by_length: "sorts_by cmp f \<Longrightarrow> length (f xs) = length xs"
  unfolding sorts_by_def by (metis size_mset)

lemma std_sort_contract_length:
  "std_sort_contract srt \<Longrightarrow> length (srt (<) xs) = length xs"
  "std_sort_contract srt \<Longrightarrow> length (srt std_greater xs) = length xs"
  by (auto simp: std_sort_contract_def intro: sorts_by_length)

lemma std_sort_contract_total:
  fixes srt :: "('a::ord \<Rightarrow> 'a \<Rightarrow> bool) \<Rightarrow> 'a list \<Rightarrow> 'a list"
  assumes "std_sort_contract srt" and sw: "strict_weak_order ((<) :: 'a \<Rightarrow> 'a \<Rightarrow> bool)"
    and tot: "\<forall>a b :: 'a. \<not> a < b \<longrightarrow> \<not> b < a \<longrightarrow> a = b"
  shows "srt (<) xs = stable_sort (<) xs"
proof -
  from assms(1) have "sorts_by (<) (srt (<))"
    by (simp add: std_sort_contract_def)
  then show ?thesis
    by (rule sorts_by_unique [OF _ stable_sort_sorts_by [OF sw]]) (use tot in blast)
qed

lemma std_sort_contract_linorder:
  fixes srt :: "('a::linorder \<Rightarrow> 'a \<Rightarrow> bool) \<Rightarrow> 'a list \<Rightarrow> 'a list"
  assumes "std_sort_contract srt"
  shows "srt (<) xs = stable_sort (<) xs"
  using assms strict_weak_order_less by (rule std_sort_contract_total) auto






section \<open>Properties of the side-cross order\<close>

lemma size_t_inc_small: "i + 1 < 2 ^ 64 \<Longrightarrow> size_t_inc i = i + 1"
  by (simp add: size_t_inc_def)

lemma size_t_dec_pos: "0 < j \<Longrightarrow> j < 2 ^ 64 \<Longrightarrow> size_t_dec j = j - 1"
  by (simp add: size_t_dec_def mod_if)

lemma side_cross_loop_segment:
  assumes "sorted_v = pre @ seg @ post" and "length sorted_v < 2 ^ 64"
    and "i = length pre"
    and "seg \<noteq> [] \<Longrightarrow> j = length pre + length seg - 1"
    and "seg = [] \<Longrightarrow> j < i"
    and "\<not> take_low \<Longrightarrow> pre \<noteq> []"
  shows "side_cross_loop sorted_v i j take_low seq = Inr (seq @ alternate_ends take_low seg)"
  using assms
proof (induction take_low seg arbitrary: pre post i j seq rule: alternate_ends.induct)
  case (1 low)
  then show ?case
    by (subst side_cross_loop.simps) simp
next
  case (2 x xs)
  have ij: "i \<le> j" "i < length sorted_v" "sorted_v ! i = x" "sorted_v \<noteq> []"
    using "2.prems" by (auto simp: nth_append)
  have inc: "size_t_inc i = i + 1"
    using ij "2.prems"(2) by (intro size_t_inc_small) linarith
  have "side_cross_loop sorted_v (i + 1) j False (seq @ [x]) =
        Inr ((seq @ [x]) @ alternate_ends False xs)"
  proof (rule "2.IH")
    show "sorted_v = (pre @ [x]) @ xs @ post" using "2.prems"(1) by simp
    show "length sorted_v < 2 ^ 64" by fact
    show "i + 1 = length (pre @ [x])" using "2.prems"(3) by simp
    show "j = length (pre @ [x]) + length xs - 1" if "xs \<noteq> []"
      using "2.prems"(4) by simp
    show "j < i + 1" if "xs = []"
      using that "2.prems"(3,4) by simp
    show "pre @ [x] \<noteq> []" by simp
  qed
  with ij inc show ?case
    by (subst side_cross_loop.simps) simp
next
  case (3 x xs)
  let ?seg = "x # xs"
  have pre: "pre \<noteq> []" using "3.prems"(6) by simp
  have j: "j = length pre + length ?seg - 1" using "3.prems"(4) by simp
  have ij: "i \<le> j" "j < length sorted_v" "sorted_v \<noteq> []" "0 < j"
    using "3.prems"(1,3) j pre by auto
  have nth: "sorted_v ! j = last ?seg"
  proof -
    have "sorted_v ! j = (?seg @ post) ! (length ?seg - 1)"
      using "3.prems"(1) j by (simp add: nth_append)
    also have "\<dots> = ?seg ! (length ?seg - 1)"
      using nth_append [of ?seg post "length ?seg - 1"] by simp
    also have "\<dots> = last ?seg"
      by (rule last_conv_nth [symmetric]) simp
    finally show ?thesis .
  qed
  have dec: "size_t_dec j = j - 1"
    using ij "3.prems"(2) by (intro size_t_dec_pos) linarith+
  have "side_cross_loop sorted_v i (j - 1) True (seq @ [last ?seg]) =
        Inr ((seq @ [last ?seg]) @ alternate_ends True (butlast ?seg))"
  proof (rule "3.IH")
    have "?seg = butlast ?seg @ [last ?seg]" by (rule append_butlast_last_id [symmetric]) simp
    then show "sorted_v = pre @ butlast ?seg @ (last ?seg # post)"
      using "3.prems"(1) by (metis append.assoc append_Cons append_Nil)
    show "length sorted_v < 2 ^ 64" by fact
    show "i = length pre" by fact
    show "j - 1 = length pre + length (butlast ?seg) - 1" if "butlast ?seg \<noteq> []"
      using j by simp
    show "j - 1 < i" if "butlast ?seg = []"
    proof -
      from that have "xs = []" by (simp split: if_splits)
      with j "3.prems"(3) pre show ?thesis by (cases pre) auto
    qed
    show "pre \<noteq> []" if "\<not> True" using that by simp
  qed
  with ij nth dec show ?case
    by (subst side_cross_loop.simps) simp
qed

lemma side_cross_loop_whole:
  assumes "length sorted_v < 2 ^ 64"
  shows "side_cross_loop sorted_v 0 (if length sorted_v \<noteq> 0 then length sorted_v - 1 else 0) True []
         = Inr (alternate_ends True sorted_v)"
proof (cases "sorted_v = []")
  case True
  then show ?thesis by (subst side_cross_loop.simps) simp
next
  case False
  have "side_cross_loop sorted_v 0 (length sorted_v - 1) True [] = Inr ([] @ alternate_ends True sorted_v)"
    by (rule side_cross_loop_segment [where pre = "[]" and post = "[]"]) (use assms False in auto)
  with False show ?thesis by simp
qed

lemma length_alternate_ends: "length (alternate_ends low xs) = length xs"
  by (induction low xs rule: alternate_ends.induct) auto

lemma mset_alternate_ends: "mset (alternate_ends low xs) = mset xs"
proof (induction low xs rule: alternate_ends.induct)
  case (3 x xs)
  have "mset (butlast (x # xs)) + {#last (x # xs)#} = mset (x # xs)"
    by (metis append_butlast_last_id list.distinct(1) mset.simps(1,2) mset_append add_mset_add_single union_mset_add_mset_right)
  with 3 show ?case by (simp del: butlast.simps last.simps)
qed auto

lemma alternate_ends_splice_gen:
  "alternate_ends low xs =
     (if low then splice (take ((length xs + 1) div 2) xs) (rev (drop ((length xs + 1) div 2) xs))
      else splice (rev (drop (length xs div 2) xs)) (take (length xs div 2) xs))"
proof (induction low xs rule: alternate_ends.induct)
  case (1 low)
  show ?case by simp
next
  case (2 x xs)
  then show ?case by simp
next
  case (3 x xs)
  let ?ys = "x # xs"
  let ?k = "length ?ys div 2"
  have k: "?k < length ?ys" by simp
  have len: "length (butlast ?ys) + 1 = length ?ys" by simp
  have "drop ?k ?ys \<noteq> []" using k by simp
  then have "drop ?k ?ys = butlast (drop ?k ?ys) @ [last (drop ?k ?ys)]"
    by (rule append_butlast_last_id [symmetric])
  also have "butlast (drop ?k ?ys) = drop ?k (butlast ?ys)"
    by (rule drop_butlast [symmetric])
  also have "last (drop ?k ?ys) = last ?ys"
    using k by (rule last_drop)
  finally have d: "rev (drop ?k ?ys) = last ?ys # rev (drop ?k (butlast ?ys))"
    by simp
  have t: "take ?k ?ys = take ?k (butlast ?ys)"
    using k by (rule take_butlast [symmetric])
  have "alternate_ends False ?ys = last ?ys # alternate_ends True (butlast ?ys)"
    by simp
  also have "alternate_ends True (butlast ?ys) =
      splice (take ?k (butlast ?ys)) (rev (drop ?k (butlast ?ys)))"
    using "3.IH" len by (simp del: butlast.simps)
  finally show ?case
    unfolding d t by (simp del: butlast.simps last.simps)
qed

lemma alternate_ends_splice:
  "alternate_ends True xs =
     splice (take ((length xs + 1) div 2) xs) (rev (drop ((length xs + 1) div 2) xs))"
  by (simp add: alternate_ends_splice_gen)

lemma SideCrossOrder_make_eq:
  assumes "length (srt (<) (data c)) < 2 ^ 64"
  shows "SideCrossOrder_make srt c =
     Inr (\<lparr>view = alternate_ends True (srt (<) (data c)), idx = 0\<rparr>,
          \<lparr>view = alternate_ends True (srt (<) (data c)), idx = length (srt (<) (data c))\<rparr>)"
  using side_cross_loop_whole [OF assms]
  by (simp add: SideCrossOrder_make_def getData_def Let_def length_alternate_ends)

text \<open>
  Claim C1. The side-cross builder returns the sorted snapshot taken alternately from its
  low end and its high end, the low end first, until the two cursors cross. The low turns
  take the first \<open>(n + 1) div 2\<close> elements of the sorted snapshot, so they take the middle
  one when \<open>n\<close> is odd. The snapshot \<open>[7,15,6,1,2]\<close> gives \<open>[1,15,2,7,6]\<close> and \<open>[1,2,3,4]\<close>
  gives \<open>[1,4,2,3]\<close>. (A vector has fewer than \<open>2 ^ 64\<close> elements.)
\<close>

theorem SideCross_alternates_sorted_ends:
  fixes srt :: "('a::ord \<Rightarrow> 'a \<Rightarrow> bool) \<Rightarrow> 'a list \<Rightarrow> 'a list"
    and srt_int :: "(int \<Rightarrow> int \<Rightarrow> bool) \<Rightarrow> int list \<Rightarrow> int list"
  assumes "std_sort_contract srt" and "std_sort_contract srt_int"
    and "length (data c) < 2 ^ 64"
  shows "SideCrossOrder_make srt c =
           Inr (\<lparr>view = alternate_ends True (srt (<) (data c)), idx = 0\<rparr>,
                \<lparr>view = alternate_ends True (srt (<) (data c)), idx = length (data c)\<rparr>)
       \<and> mset (srt (<) (data c)) = mset (data c)
       \<and> sorted_wrt (\<lambda>a b. \<not> b < a) (srt (<) (data c))
       \<and> (strict_weak_order ((<) :: 'a \<Rightarrow> 'a \<Rightarrow> bool)
            \<and> (\<forall>a b :: 'a. \<not> a < b \<longrightarrow> \<not> b < a \<longrightarrow> a = b) \<longrightarrow>
          srt (<) (data c) = stable_sort (<) (data c))
       \<and> alternate_ends True (srt (<) (data c)) =
           splice (take ((length (data c) + 1) div 2) (srt (<) (data c)))
                  (rev (drop ((length (data c) + 1) div 2) (srt (<) (data c))))
       \<and> SideCrossOrder_make srt_int \<lparr>data = [7, 15, 6, 1, 2]\<rparr> =
           Inr (\<lparr>view = [1, 15, 2, 7, 6], idx = 0\<rparr>, \<lparr>view = [1, 15, 2, 7, 6], idx = 5\<rparr>)
       \<and> SideCrossOrder_make srt_int \<lparr>data = [1, 2, 3, 4]\<rparr> =
           Inr (\<lparr>view = [1, 4, 2, 3], idx = 0\<rparr>, \<lparr>view = [1, 4, 2, 3], idx = 4\<rparr>)"
proof -
  have len: "length (srt (<) (data c)) = length (data c)"
    using assms(1) by (rule std_sort_contract_length)
  have 1: "SideCrossOrder_make srt c =
           Inr (\<lparr>view = alternate_ends True (srt (<) (data c)), idx = 0\<rparr>,
                \<lparr>view = alternate_ends True (srt (<) (data c)), idx = length (data c)\<rparr>)"
    using SideCrossOrder_make_eq [of srt c] assms(3) len by simp
  have 2: "mset (srt (<) (data c)) = mset (data c)"
    and 3: "sorted_wrt (\<lambda>a b. \<not> b < a) (srt (<) (data c))"
    using assms(1) by (simp_all add: std_sort_contract_def sorts_by_def)
  have 4: "srt (<) (data c) = stable_sort (<) (data c)"
    if "strict_weak_order ((<) :: 'a \<Rightarrow> 'a \<Rightarrow> bool)"
      and "\<forall>a b :: 'a. \<not> a < b \<longrightarrow> \<not> b < a \<longrightarrow> a = b"
    using assms(1) that by (rule std_sort_contract_total)
  have 5: "alternate_ends True (srt (<) (data c)) =
           splice (take ((length (data c) + 1) div 2) (srt (<) (data c)))
                  (rev (drop ((length (data c) + 1) div 2) (srt (<) (data c))))"
    using alternate_ends_splice [of "srt (<) (data c)"] len by simp
  have s1: "srt_int (<) [7, 15, 6, 1, 2] = [1, 2, 6, 7, 15]"
    and s2: "srt_int (<) [1, 2, 3, 4] = [1, 2, 3, 4]"
    using assms(2) by (simp_all add: std_sort_contract_linorder stable_sort_def)
  have 6: "SideCrossOrder_make srt_int \<lparr>data = [7, 15, 6, 1, 2]\<rparr> =
           Inr (\<lparr>view = [1, 15, 2, 7, 6], idx = 0\<rparr>, \<lparr>view = [1, 15, 2, 7, 6], idx = 5\<rparr>)"
    using SideCrossOrder_make_eq [of srt_int "\<lparr>data = [7, 15, 6, 1, 2]\<rparr>"] s1 by simp
  have 7: "SideCrossOrder_make srt_int \<lparr>data = [1, 2, 3, 4]\<rparr> =
           Inr (\<lparr>view = [1, 4, 2, 3], idx = 0\<rparr>, \<lparr>view = [1, 4, 2, 3], idx = 4\<rparr>)"
    using SideCrossOrder_make_eq [of srt_int "\<lparr>data = [1, 2, 3, 4]\<rparr>"] s2 by simp
  from 1 2 3 4 5 6 7 show ?thesis by blast
qed

theorem SideCross_witness:
  "SideCrossOrder_make tie_reversing_sort \<lparr>data = [3, 1, 2 :: int]\<rparr> =
     Inr (\<lparr>view = [1, 3, 2], idx = 0\<rparr>, \<lparr>view = [1, 3, 2], idx = 3\<rparr>)
   \<and> SideCrossOrder_make tie_reversing_sort \<lparr>data = [7, 15, 6, 1, 2 :: int]\<rparr> =
     Inr (\<lparr>view = [1, 15, 2, 7, 6], idx = 0\<rparr>, \<lparr>view = [1, 15, 2, 7, 6], idx = 5\<rparr>)"
proof -
  have "length (data \<lparr>data = [3, 1, 2 :: int]\<rparr>) < 2 ^ 64"
    by simp
  from SideCross_alternates_sorted_ends [OF std_sort_contract_tie_reversing_sort
      std_sort_contract_tie_reversing_sort this]
  show ?thesis
    by (simp add: tie_reversing_sort_def stable_sort_def)
qed

section \<open>Properties of the middle-out order\<close>

lemma to_long_small: "n < 2 ^ 63 \<Longrightarrow> to_long n = int n"
  by (simp add: to_long_def)

lemma lower_middle_less: "0 < n \<Longrightarrow> (n - 1) div 2 < (n::nat)"
proof -
  assume "0 < n"
  moreover have "(n - 1) div 2 \<le> n - 1" by (rule div_le_dividend)
  ultimately show ?thesis by linarith
qed

lemma two_63_less_64: "(2::nat) ^ 63 < 2 ^ 64"
  by simp

lemma to_size_t_int: "n < 2 ^ 64 \<Longrightarrow> to_size_t (int n) = n"
proof -
  assume "n < 2 ^ 64"
  then have "int n < 2 ^ 64" by (metis of_nat_less_iff of_nat_numeral of_nat_power)
  then have "int n mod 2 ^ 64 = int n" by simp
  then show ?thesis by (simp add: to_size_t_def)
qed

lemma vec_index_to_size_t:
  assumes "length base < 2 ^ 63" and "i < length base"
  shows "vec_index base (to_size_t (int i)) = Inr (base ! i)"
proof -
  have "i < 2 ^ 64" using assms two_63_less_64 by linarith
  then have "to_size_t (int i) = i" by (rule to_size_t_int)
  with assms(2) show ?thesis by (simp add: vec_index_def)
qed

lemma middle_out_body_left:
  assumes n: "length base < 2 ^ 63" and l: "l < length base"
  shows "middle_out_body base (int l, int r, True, seq) =
     Inr (int l - 1, int r, (if l = 0 then False else if length base \<le> r then True else False),
          seq @ [base ! l])"
proof -
  have a: "vec_index base (to_size_t (int l)) = Inr (base ! l)"
    using n l by (rule vec_index_to_size_t)
  have b: "to_long (length base) = int (length base)"
    using n by (rule to_long_small)
  have c: "(int l - 1 < 0) = (l = 0)" by linarith
  show ?thesis
    by (simp add: middle_out_body_def a b c Let_def)
qed

lemma middle_out_body_right:
  assumes n: "length base < 2 ^ 63" and r: "r < length base"
  shows "middle_out_body base (left, int r, False, seq) =
     Inr (left, int (r + 1), (if left < 0 then False else True), seq @ [base ! r])"
proof -
  have a: "vec_index base (to_size_t (int r)) = Inr (base ! r)"
    using n r by (rule vec_index_to_size_t)
  have b: "to_long (length base) = int (length base)"
    using n by (rule to_long_small)
  show ?thesis
    using r by (simp add: middle_out_body_def a b Let_def)
qed

lemma middle_out_body_idle:
  assumes n: "length base < 2 ^ 63"
  shows "middle_out_body base (- 1, int r, True, seq) = Inr (- 1, int r, False, seq)"
proof -
  have b: "to_long (length base) = int (length base)"
    using n by (rule to_long_small)
  show ?thesis
    by (simp add: middle_out_body_def b Let_def)
qed

lemma splice_Nil_left_right: "splice xs [] = splice [] xs"
  by simp

lemma middle_out_loop_good:
  assumes "length base < 2 ^ 63"
    and "m = l + (length base - r)"
    and "left = int l - 1"
    and "l \<le> r" and "r \<le> length base"
    and "length seq + l + (length base - r) = length base"
    and "l = 0 \<Longrightarrow> \<not> take_left"
    and "0 < l \<Longrightarrow> r = length base \<Longrightarrow> take_left"
  shows "middle_out_loop base (left, int r, take_left, seq) k =
     Some (Inr (seq @ (if take_left then splice (rev (take l base)) (drop r base)
                       else splice (drop r base) (rev (take l base))),
                k + m))"
  using assms
proof (induction m arbitrary: l left r take_left seq k)
  case 0
  then have "l = 0" "r = length base" "length seq = length base" by auto
  then show ?case
    by (subst middle_out_loop.simps) simp
next
  case (Suc m)
  have short: "length seq < length base" using Suc.prems(2,6) by linarith
  show ?case
  proof (cases take_left)
    case True
    with Suc.prems(7) have "l \<noteq> 0" by blast
    then obtain l' where l: "l = Suc l'" by (cases l) auto
    have left: "left = int l'" using Suc.prems(3) l by simp
    have l'n: "l' < length base" using Suc.prems(4,5) l by linarith
    let ?tl' = "if l' = 0 then False else if length base \<le> r then True else False"
    have body: "middle_out_body base (int l', int r, True, seq) =
        Inr (int l' - 1, int r, ?tl', seq @ [base ! l'])"
      using Suc.prems(1) l'n by (rule middle_out_body_left)
    have IH: "middle_out_loop base (int l' - 1, int r, ?tl', seq @ [base ! l']) (k + 1) =
        Some (Inr ((seq @ [base ! l']) @
                (if ?tl' then splice (rev (take l' base)) (drop r base)
                 else splice (drop r base) (rev (take l' base))),
              (k + 1) + m))"
    proof (rule Suc.IH)
      show "length base < 2 ^ 63" by fact
      show "m = l' + (length base - r)" using Suc.prems(2) l by linarith
      show "int l' - 1 = int l' - 1" by (rule refl)
      show "l' \<le> r" using Suc.prems(4) l by linarith
      show "r \<le> length base" by fact
      show "length (seq @ [base ! l']) + l' + (length base - r) = length base"
        using Suc.prems(6) l by simp
      show "\<not> ?tl'" if "l' = 0" using that by simp
      show "?tl'" if "0 < l'" "r = length base" using that by simp
    qed
    have tk: "rev (take l base) = base ! l' # rev (take l' base)"
      using l'n l by (simp add: take_Suc_conv_app_nth)
    have rest: "(if ?tl' then splice (rev (take l' base)) (drop r base)
                 else splice (drop r base) (rev (take l' base)))
               = splice (drop r base) (rev (take l' base))"
      using Suc.prems(5) by (auto simp: splice_Nil_left_right)
    have step: "middle_out_loop base (int l', int r, True, seq) k =
          middle_out_loop base (int l' - 1, int r, ?tl', seq @ [base ! l']) (k + 1)"
      by (subst middle_out_loop.simps) (simp only: short body snd_conv if_True sum.case)
    have "middle_out_loop base (left, int r, take_left, seq) k =
       Some (Inr ((seq @ [base ! l']) @ splice (drop r base) (rev (take l' base)), (k + 1) + m))"
      unfolding left using True step IH rest by simp
    then show ?thesis using True tk by simp
  next
    case False
    have r: "r < length base"
    proof (cases "l = 0")
      case True
      with Suc.prems(2) show ?thesis by linarith
    next
      case l: False
      with Suc.prems(8) False have "r \<noteq> length base" by auto
      with Suc.prems(5) show ?thesis by linarith
    qed
    have neg: "left < 0 \<longleftrightarrow> l = 0" using Suc.prems(3) by linarith
    let ?tl' = "if left < 0 then False else True"
    have body: "middle_out_body base (left, int r, False, seq) =
        Inr (left, int (r + 1), ?tl', seq @ [base ! r])"
      using Suc.prems(1) r by (rule middle_out_body_right)
    have IH: "middle_out_loop base (left, int (r + 1), ?tl', seq @ [base ! r]) (k + 1) =
        Some (Inr ((seq @ [base ! r]) @
                (if ?tl' then splice (rev (take l base)) (drop (r + 1) base)
                 else splice (drop (r + 1) base) (rev (take l base))),
              (k + 1) + m))"
    proof (rule Suc.IH)
      show "length base < 2 ^ 63" by fact
      show "m = l + (length base - (r + 1))" using Suc.prems(2) r by linarith
      show "left = int l - 1" by fact
      show "l \<le> r + 1" using Suc.prems(4) by linarith
      show "r + 1 \<le> length base" using r by linarith
      show "length (seq @ [base ! r]) + l + (length base - (r + 1)) = length base"
        using Suc.prems(6) r by simp
      show "\<not> ?tl'" if "l = 0" using that neg by simp
      show "?tl'" if "0 < l" "r + 1 = length base" using that neg by simp
    qed
    have dr: "drop r base = base ! r # drop (r + 1) base"
      using r by (simp add: Cons_nth_drop_Suc)
    have rest: "(if ?tl' then splice (rev (take l base)) (drop (r + 1) base)
                 else splice (drop (r + 1) base) (rev (take l base)))
               = splice (rev (take l base)) (drop (r + 1) base)"
      using neg by (auto simp: splice_Nil_left_right)
    have step: "middle_out_loop base (left, int r, False, seq) k =
          middle_out_loop base (left, int (r + 1), ?tl', seq @ [base ! r]) (k + 1)"
      by (subst middle_out_loop.simps) (simp only: short body snd_conv if_True sum.case)
    have "middle_out_loop base (left, int r, take_left, seq) k =
       Some (Inr ((seq @ [base ! r]) @ splice (rev (take l base)) (drop (r + 1) base), (k + 1) + m))"
      using False step IH rest by simp
    then show ?thesis using False dr by simp
  qed
qed

lemma middle_out_loop_single:
  assumes one: "length base = Suc 0" and m: "m = 0"
  shows "middle_out_loop base (int m - 1, int m + 1, True, [base ! m]) 0 =
          Some (Inr ([base ! m], 0))"
  by (subst middle_out_loop.simps) (simp add: one)

lemma middle_out_loop_pair_start:
  assumes n: "length base < 2 ^ 63" and m: "0 < length base" and lt: "Suc 0 < length base"
  shows "middle_out_loop base (- 1, int 1, True, [base ! 0]) 0 =
        Some (Inr ([base ! 0] @ drop 1 base, length base))"
proof -
    have short: "length [base ! 0] < length base" using lt by simp
    have idle: "middle_out_body base (- 1, int 1, True, [base ! 0]) = Inr (- 1, int 1, False, [base ! 0])"
      using n by (rule middle_out_body_idle)
    have good: "middle_out_loop base (- 1, int 1, False, [base ! 0]) (0 + 1) =
        Some (Inr ([base ! 0] @ (if False then splice (rev (take 0 base)) (drop 1 base)
                       else splice (drop 1 base) (rev (take 0 base))),
                (0 + 1) + (0 + (length base - 1))))"
    proof (rule middle_out_loop_good)
      show "length base < 2 ^ 63" by fact
      show "0 + (length base - 1) = 0 + (length base - 1)" by (rule refl)
      show "- 1 = int 0 - 1" by simp
      show "(0::nat) \<le> 1" by simp
      show "1 \<le> length base" using m by linarith
      show "length [base ! 0] + 0 + (length base - 1) = length base" using m by simp
      show "\<not> False" by simp
      show "False" if "0 < (0::nat)" using that by simp
    qed
    have step: "middle_out_loop base (- 1, int 1, True, [base ! 0]) 0 =
        middle_out_loop base (- 1, int 1, False, [base ! 0]) (0 + 1)"
      by (subst middle_out_loop.simps) (simp only: short idle snd_conv if_True sum.case)
    have cnt: "(0 + 1) + (0 + (length base - 1)) = length base" using m by linarith
    show ?thesis
      unfolding step good cnt by simp
qed

lemma middle_out_spec_nonempty:
  "base \<noteq> [] \<Longrightarrow> middle_out_spec base =
     base ! ((length base - 1) div 2) #
       splice (rev (take ((length base - 1) div 2) base)) (drop (Suc ((length base - 1) div 2)) base)"
  by (simp add: middle_out_spec_def Let_def)

lemma middle_out_loop_inner:
  assumes n: "length base < 2 ^ 63" and m: "m < length base" and pos: "0 < m"
  shows "middle_out_loop base (int m - 1, int m + 1, True, [base ! m]) 0 =
         Some (Inr (base ! m # splice (rev (take m base)) (drop (Suc m) base), length base - 1))"
proof -
  have "middle_out_loop base (int m - 1, int (Suc m), True, [base ! m]) 0 =
      Some (Inr ([base ! m] @ (if True then splice (rev (take m base)) (drop (Suc m) base)
                       else splice (drop (Suc m) base) (rev (take m base))),
                0 + (m + (length base - Suc m))))"
  proof (rule middle_out_loop_good)
    show "length base < 2 ^ 63" by fact
    show "m + (length base - Suc m) = m + (length base - Suc m)" by (rule refl)
    show "int m - 1 = int m - 1" by (rule refl)
    show "m \<le> Suc m" by simp
    show "Suc m \<le> length base" using m by simp
    show "length [base ! m] + m + (length base - Suc m) = length base" using m by simp
    show "\<not> True" if "m = 0" using that pos by simp
    show "True" by (rule TrueI)
  qed
  moreover have "0 + (m + (length base - Suc m)) = length base - 1" using m by linarith
  moreover have "int (Suc m) = int m + 1" by simp
  ultimately show ?thesis by (simp only: if_True append_Cons append_Nil)
qed

lemma middle_out_loop_from_middle:
  assumes n: "length base < 2 ^ 63" and m: "m < length base"
  shows "\<exists>passes. middle_out_loop base (int m - 1, int m + 1, True, [base ! m]) 0 =
         Some (Inr (base ! m # splice (rev (take m base)) (drop (Suc m) base), passes))
         \<and> passes \<le> length base"
proof (cases "m = 0")
  case False
  then have "0 < m" by simp
  with n m have "middle_out_loop base (int m - 1, int m + 1, True, [base ! m]) 0 =
         Some (Inr (base ! m # splice (rev (take m base)) (drop (Suc m) base), length base - 1))"
    by (rule middle_out_loop_inner)
  moreover have "length base - 1 \<le> length base" by simp
  ultimately show ?thesis by blast
next
  case True
  show ?thesis
  proof (cases "Suc 0 < length base")
    case False
    with m have one: "length base = Suc 0" by linarith
    have "middle_out_loop base (int m - 1, int m + 1, True, [base ! m]) 0 =
          Some (Inr ([base ! m], 0))"
      using one True by (rule middle_out_loop_single)
    moreover have "splice (rev (take m base)) (drop (Suc m) base) = []"
      using one True by simp
    ultimately have "middle_out_loop base (int m - 1, int m + 1, True, [base ! m]) 0 =
         Some (Inr (base ! m # splice (rev (take m base)) (drop (Suc m) base), 0))"
      by simp
    then show ?thesis by blast
  next
    case lt: True
    have "middle_out_loop base (- 1, int 1, True, [base ! 0]) 0 =
        Some (Inr ([base ! 0] @ drop 1 base, length base))"
      using n _ lt by (rule middle_out_loop_pair_start) (use m in linarith)
    moreover have "int m - 1 = - 1" "int m + 1 = int 1" using True by simp_all
    moreover have "splice (rev (take m base)) (drop (Suc m) base) = drop 1 base"
      using True by simp
    ultimately have "middle_out_loop base (int m - 1, int m + 1, True, [base ! m]) 0 =
         Some (Inr (base ! m # splice (rev (take m base)) (drop (Suc m) base), length base))"
      using True by (simp only: append_Cons append_Nil)
    then show ?thesis by blast
  qed
qed

lemma length_middle_out_spec: "length (middle_out_spec xs) = length xs"
proof (cases "xs = []")
  case True
  then show ?thesis by (simp add: middle_out_spec_def)
next
  case False
  then have "(length xs - 1) div 2 < length xs"
    by (intro lower_middle_less) simp
  then show ?thesis
    using False by (simp add: middle_out_spec_nonempty length_splice)
qed

lemma mset_splice: "mset (splice xs ys) = mset xs + mset ys"
  by (induction xs ys rule: splice.induct) auto

lemma mset_middle_out_spec: "mset (middle_out_spec xs) = mset xs"
proof (cases "xs = []")
  case True
  then show ?thesis by (simp add: middle_out_spec_def)
next
  case False
  let ?m = "(length xs - 1) div 2"
  have m: "?m < length xs" using False by (intro lower_middle_less) simp
  have "mset (take ?m xs @ xs ! ?m # drop (Suc ?m) xs) = mset xs"
    by (simp only: id_take_nth_drop [OF m, symmetric])
  moreover have "mset (middle_out_spec xs) = mset (take ?m xs @ xs ! ?m # drop (Suc ?m) xs)"
    using False by (simp add: middle_out_spec_nonempty mset_splice)
  ultimately show ?thesis by (rule back_subst [where P = "\<lambda>z. mset (middle_out_spec xs) = z", rotated])
qed

lemma MiddleOutOrder_make_eq:
  assumes "length (data c) < 2 ^ 63"
  shows "MiddleOutOrder_make c =
     Some (Inr (\<lparr>view = middle_out_spec (data c), idx = 0\<rparr>,
                \<lparr>view = middle_out_spec (data c), idx = length (data c)\<rparr>))"
proof (cases "data c = []")
  case True
  then show ?thesis
    by (simp add: MiddleOutOrder_make_def getData_def middle_out_spec_def)
next
  case False
  let ?n = "length (data c)"
  let ?m = "(?n - 1) div 2"
  have m: "?m < ?n" using False by (intro lower_middle_less) simp
  have tl: "to_long ?m = int ?m"
    using assms m by (intro to_long_small) linarith
  have vi: "vec_index (data c) (to_size_t (int ?m)) = Inr (data c ! ?m)"
    using assms m by (rule vec_index_to_size_t)
  obtain passes where loop:
    "middle_out_loop (data c) (int ?m - 1, int ?m + 1, True, [data c ! ?m]) 0 =
       Some (Inr (data c ! ?m # splice (rev (take ?m (data c))) (drop (Suc ?m) (data c)), passes))"
    using middle_out_loop_from_middle [OF assms m] by blast
  have spec: "data c ! ?m # splice (rev (take ?m (data c))) (drop (Suc ?m) (data c))
      = middle_out_spec (data c)"
    using False by (rule middle_out_spec_nonempty [symmetric])
  have len: "length (middle_out_spec (data c)) = ?n"
    by (rule length_middle_out_spec)
  have ne: "?n \<noteq> 0" using False by simp
  show ?thesis
    unfolding MiddleOutOrder_make_def getData_def Let_def
    by (simp only: ne if_False tl vi loop spec len append_Nil sum.case option.case prod.case)
qed

text \<open>
  Claim C2. For a snapshot of \<open>n\<close> elements the middle-out builder returns the element at
  index \<open>(n - 1) div 2\<close> of the insertion order, then the elements to its left and to its
  right alternately, nearest first and the left first, and the rest of one side once the
  other is used up. The snapshots of no and of one element give the same sequence back;
  \<open>[7,15,6,1,2]\<close> gives \<open>[6,15,1,7,2]\<close> and \<open>[1,2,3,4]\<close> gives \<open>[2,1,3,4]\<close>. (A vector has
  fewer than \<open>2 ^ 63\<close> elements, so the cast of its size to \<^verbatim>\<open>long\<close> is exact.)
\<close>

theorem MiddleOut_from_lower_middle:
  assumes "length (data c) < 2 ^ 63"
  shows "MiddleOutOrder_make c =
           Some (Inr (\<lparr>view = middle_out_spec (data c), idx = 0\<rparr>,
                      \<lparr>view = middle_out_spec (data c), idx = length (data c)\<rparr>))
       \<and> MiddleOutOrder_make \<lparr>data = [7, 15, 6, 1, 2 :: int]\<rparr> =
           Some (Inr (\<lparr>view = [6, 15, 1, 7, 2], idx = 0\<rparr>, \<lparr>view = [6, 15, 1, 7, 2], idx = 5\<rparr>))
       \<and> MiddleOutOrder_make \<lparr>data = [1, 2, 3, 4 :: int]\<rparr> =
           Some (Inr (\<lparr>view = [2, 1, 3, 4], idx = 0\<rparr>, \<lparr>view = [2, 1, 3, 4], idx = 4\<rparr>))
       \<and> MiddleOutOrder_make \<lparr>data = [] :: 'a list\<rparr> =
           Some (Inr (\<lparr>view = [], idx = 0\<rparr>, \<lparr>view = [], idx = 0\<rparr>))
       \<and> MiddleOutOrder_make \<lparr>data = [x :: 'a]\<rparr> =
           Some (Inr (\<lparr>view = [x], idx = 0\<rparr>, \<lparr>view = [x], idx = 1\<rparr>))"
proof -
  have 1: "MiddleOutOrder_make c =
           Some (Inr (\<lparr>view = middle_out_spec (data c), idx = 0\<rparr>,
                      \<lparr>view = middle_out_spec (data c), idx = length (data c)\<rparr>))"
    using assms by (rule MiddleOutOrder_make_eq)
  have 2: "MiddleOutOrder_make \<lparr>data = [7, 15, 6, 1, 2 :: int]\<rparr> =
           Some (Inr (\<lparr>view = [6, 15, 1, 7, 2], idx = 0\<rparr>, \<lparr>view = [6, 15, 1, 7, 2], idx = 5\<rparr>))"
    using MiddleOutOrder_make_eq [of "\<lparr>data = [7, 15, 6, 1, 2 :: int]\<rparr>"]
    by (simp add: middle_out_spec_def)
  have 3: "MiddleOutOrder_make \<lparr>data = [1, 2, 3, 4 :: int]\<rparr> =
           Some (Inr (\<lparr>view = [2, 1, 3, 4], idx = 0\<rparr>, \<lparr>view = [2, 1, 3, 4], idx = 4\<rparr>))"
    using MiddleOutOrder_make_eq [of "\<lparr>data = [1, 2, 3, 4 :: int]\<rparr>"]
    by (simp add: middle_out_spec_def)
  have 4: "MiddleOutOrder_make \<lparr>data = [] :: 'a list\<rparr> =
           Some (Inr (\<lparr>view = [], idx = 0\<rparr>, \<lparr>view = [], idx = 0\<rparr>))"
    using MiddleOutOrder_make_eq [of "\<lparr>data = [] :: 'a list\<rparr>"]
    by (simp add: middle_out_spec_def)
  have 5: "MiddleOutOrder_make \<lparr>data = [x :: 'a]\<rparr> =
           Some (Inr (\<lparr>view = [x], idx = 0\<rparr>, \<lparr>view = [x], idx = 1\<rparr>))"
    using MiddleOutOrder_make_eq [of "\<lparr>data = [x]\<rparr>"]
    by (simp add: middle_out_spec_def)
  from 1 2 3 4 5 show ?thesis by blast
qed

theorem MiddleOut_witness:
  "MiddleOutOrder_make \<lparr>data = [10, 20, 30, 40, 50, 60 :: int]\<rparr> =
     Some (Inr (\<lparr>view = [30, 20, 40, 10, 50, 60], idx = 0\<rparr>,
                \<lparr>view = [30, 20, 40, 10, 50, 60], idx = 6\<rparr>))"
proof -
  have "length (data \<lparr>data = [10, 20, 30, 40, 50, 60 :: int]\<rparr>) < 2 ^ 63"
    by simp
  then have "MiddleOutOrder_make \<lparr>data = [10, 20, 30, 40, 50, 60 :: int]\<rparr> =
      Some (Inr (\<lparr>view = middle_out_spec (data \<lparr>data = [10, 20, 30, 40, 50, 60 :: int]\<rparr>), idx = 0\<rparr>,
                 \<lparr>view = middle_out_spec (data \<lparr>data = [10, 20, 30, 40, 50, 60 :: int]\<rparr>),
                    idx = length (data \<lparr>data = [10, 20, 30, 40, 50, 60 :: int]\<rparr>)\<rparr>))"
    using MiddleOut_from_lower_middle [where c = "\<lparr>data = [10, 20, 30, 40, 50, 60 :: int]\<rparr>" and x = 0]
    by blast
  then show ?thesis
    by (simp add: middle_out_spec_def)
qed

lemma middle_out_body_idle_flag:
  assumes n: "length base < 2 ^ 63"
    and body: "middle_out_body base (left, right, take_left, seq) = Inr (left', right', take_left', seq)"
    and some: "0 \<le> left \<or> right < int (length base)"
  shows "if take_left' then 0 \<le> left' else right' < int (length base)"
proof -
  have b: "to_long (length base) = int (length base)"
    using n by (rule to_long_small)
  show ?thesis
    using body some
    by (auto simp: middle_out_body_def b Let_def split: if_splits sum.splits)
qed

text \<open>
  Claim C10. The loop of the middle-out builder ends: from the state the builder starts
  it in, it returns a sequence of the length of the input after at most \<open>n\<close> passes, hence
  at most \<open>2 * n\<close>. A pass that pushes nothing, in a state where some side has an element
  left, sets the flag to a side that has one.
\<close>

theorem middle_out_loop_terminates:
  assumes "length base < 2 ^ 63"
  shows "(base \<noteq> [] \<longrightarrow>
          (\<exists>seq passes.
             middle_out_loop base
               (to_long ((length base - 1) div 2) - 1, to_long ((length base - 1) div 2) + 1, True,
                [] @ [base ! ((length base - 1) div 2)]) 0 = Some (Inr (seq, passes))
             \<and> length seq = length base \<and> passes \<le> length base \<and> passes \<le> 2 * length base))
       \<and> (\<forall>left right take_left seq left' right' take_left'.
            middle_out_body base (left, right, take_left, seq) = Inr (left', right', take_left', seq)
            \<and> (0 \<le> left \<or> right < int (length base)) \<longrightarrow>
            (if take_left' then 0 \<le> left' else right' < int (length base)))
       \<and> MiddleOutOrder_make \<lparr>data = base\<rparr> \<noteq> None"
proof -
  have 1: "\<exists>seq passes.
             middle_out_loop base
               (to_long ((length base - 1) div 2) - 1, to_long ((length base - 1) div 2) + 1, True,
                [] @ [base ! ((length base - 1) div 2)]) 0 = Some (Inr (seq, passes))
             \<and> length seq = length base \<and> passes \<le> length base \<and> passes \<le> 2 * length base"
    if ne: "base \<noteq> []"
  proof -
    let ?m = "(length base - 1) div 2"
    have m: "?m < length base" using ne by (intro lower_middle_less) simp
    have tl: "to_long ?m = int ?m"
      using assms m by (intro to_long_small) linarith
    obtain passes where loop:
      "middle_out_loop base (int ?m - 1, int ?m + 1, True, [base ! ?m]) 0 =
         Some (Inr (base ! ?m # splice (rev (take ?m base)) (drop (Suc ?m) base), passes))"
      and le: "passes \<le> length base"
      using middle_out_loop_from_middle [OF assms m] by blast
    have "length (base ! ?m # splice (rev (take ?m base)) (drop (Suc ?m) base)) = length base"
      using length_middle_out_spec [of base] unfolding middle_out_spec_nonempty [OF ne] .
    moreover have "passes \<le> 2 * length base" using le by linarith
    ultimately show ?thesis
      using loop le unfolding tl append_Nil by blast
  qed
  have 2: "if take_left' then 0 \<le> left' else right' < int (length base)"
    if "middle_out_body base (left, right, take_left, seq) = Inr (left', right', take_left', seq)"
      and "0 \<le> left \<or> right < int (length base)"
    for left right take_left and seq :: "'a list" and left' right' take_left'
    using assms that by (rule middle_out_body_idle_flag)
  have 3: "MiddleOutOrder_make \<lparr>data = base\<rparr> \<noteq> None"
    using MiddleOutOrder_make_eq [of "\<lparr>data = base\<rparr>"] assms by simp
  from 1 2 3 show ?thesis by blast
qed

lemma middle_out_body_pair_idle:
  "middle_out_body [1, 2 :: int] (- 1, 1, True, [1]) = Inr (- 1, 1, False, [1])"
  by (simp add: middle_out_body_def to_long_def Let_def)

lemma middle_out_body_pair_push:
  "middle_out_body [1, 2 :: int] (- 1, 1, False, [1]) = Inr (- 1, 2, False, [1, 2])"
  by (simp add: middle_out_body_def to_long_def to_size_t_def vec_index_def Let_def)

lemma middle_out_loop_pair_run:
  "middle_out_loop [1, 2 :: int] (- 1, 1, True, [1]) 0 = Some (Inr ([1, 2], 2))"
  apply (subst middle_out_loop.simps)
  apply (simp add: middle_out_body_pair_idle)
  apply (subst middle_out_loop.simps)
  apply (simp add: middle_out_body_pair_push)
  apply (subst middle_out_loop.simps)
  apply simp
  done

theorem middle_out_loop_terminates_witness:
  "middle_out_loop [1, 2 :: int] (- 1, 1, True, [1]) 0 = Some (Inr ([1, 2], 2))
   \<and> (\<exists>seq passes.
      middle_out_loop [1, 2 :: int] (to_long ((length [1, 2 :: int] - 1) div 2) - 1,
         to_long ((length [1, 2 :: int] - 1) div 2) + 1, True,
         [] @ [[1, 2] ! ((length [1, 2 :: int] - 1) div 2)]) 0
        = Some (Inr (seq, passes))
      \<and> length seq = length [1, 2 :: int] \<and> passes \<le> length [1, 2 :: int]
      \<and> passes \<le> 2 * length [1, 2 :: int])
   \<and> MiddleOutOrder_make \<lparr>data = [1, 2 :: int]\<rparr> \<noteq> None"
proof -
  have n: "length [1, 2 :: int] < 2 ^ 63" by simp
  have ne: "[1, 2 :: int] \<noteq> []" by simp
  have run: "middle_out_loop [1, 2 :: int] (- 1, 1, True, [1]) 0 = Some (Inr ([1, 2], 2))"
    by (rule middle_out_loop_pair_run)
  note t = middle_out_loop_terminates [OF n]
  from t have a: "[1, 2 :: int] \<noteq> [] \<longrightarrow> (\<exists>seq passes.
      middle_out_loop [1, 2 :: int] (to_long ((length [1, 2 :: int] - 1) div 2) - 1,
         to_long ((length [1, 2 :: int] - 1) div 2) + 1, True,
         [] @ [[1, 2] ! ((length [1, 2 :: int] - 1) div 2)]) 0
        = Some (Inr (seq, passes))
      \<and> length seq = length [1, 2 :: int] \<and> passes \<le> length [1, 2 :: int]
      \<and> passes \<le> 2 * length [1, 2 :: int])"
    by (rule conjunct1)
  from t have c: "MiddleOutOrder_make \<lparr>data = [1, 2 :: int]\<rparr> \<noteq> None"
    by (rule conjunct2 [OF conjunct2])
  from a ne have a': "\<exists>seq passes.
      middle_out_loop [1, 2 :: int] (to_long ((length [1, 2 :: int] - 1) div 2) - 1,
         to_long ((length [1, 2 :: int] - 1) div 2) + 1, True,
         [] @ [[1, 2] ! ((length [1, 2 :: int] - 1) div 2)]) 0
        = Some (Inr (seq, passes))
      \<and> length seq = length [1, 2 :: int] \<and> passes \<le> length [1, 2 :: int]
      \<and> passes \<le> 2 * length [1, 2 :: int]"
    by (rule mp)
  from run a' c show ?thesis
    by (intro conjI)
qed

section \<open>Properties of the iterators of all six kinds\<close>

lemma Order_make_eq:
  "Order_make c = (\<lparr>view = data c, idx = 0\<rparr>, \<lparr>view = data c, idx = length (data c)\<rparr>)"
  by (simp add: Order_make_def getData_def Let_def)

lemma ReverseOrder_make_eq:
  "ReverseOrder_make c =
     (\<lparr>view = rev (data c), idx = 0\<rparr>, \<lparr>view = rev (data c), idx = length (data c)\<rparr>)"
  by (simp add: ReverseOrder_make_def getData_def Let_def)

lemma AscendingOrder_make_eq:
  "std_sort_contract srt \<Longrightarrow> AscendingOrder_make srt c =
     (\<lparr>view = srt (<) (data c), idx = 0\<rparr>, \<lparr>view = srt (<) (data c), idx = length (data c)\<rparr>)"
  by (simp add: AscendingOrder_make_def getData_def Let_def std_sort_contract_length)

lemma DescendingOrder_make_eq:
  "std_sort_contract srt \<Longrightarrow> DescendingOrder_make srt c =
     (\<lparr>view = srt std_greater (data c), idx = 0\<rparr>,
      \<lparr>view = srt std_greater (data c), idx = length (data c)\<rparr>)"
  by (simp add: DescendingOrder_make_def getData_def Let_def std_sort_contract_length)

lemma make_of_eq:
  assumes srt: "k \<in> {AscendingOrder, DescendingOrder, SideCrossOrder} \<Longrightarrow> std_sort_contract srt"
    and len: "length (data c) < 2 ^ 63"
  shows "make_of k srt c =
     Some (Inr (\<lparr>view = order_seq k srt (data c), idx = 0\<rparr>,
                \<lparr>view = order_seq k srt (data c), idx = length (data c)\<rparr>))"
proof (cases k)
  case Order
  then show ?thesis by (simp add: make_of_def order_seq_def Order_make_eq)
next
  case ReverseOrder
  then show ?thesis by (simp add: make_of_def order_seq_def ReverseOrder_make_eq)
next
  case AscendingOrder
  with srt have "std_sort_contract srt" by simp
  with AscendingOrder show ?thesis
    by (simp add: make_of_def order_seq_def AscendingOrder_make_eq)
next
  case DescendingOrder
  with srt have "std_sort_contract srt" by simp
  with DescendingOrder show ?thesis
    by (simp add: make_of_def order_seq_def DescendingOrder_make_eq)
next
  case SideCrossOrder
  with srt have c: "std_sort_contract srt" by simp
  then have l: "length (srt (<) (data c)) = length (data c)"
    by (rule std_sort_contract_length)
  have "length (data c) < 2 ^ 64" using len two_63_less_64 by linarith
  with l have "length (srt (<) (data c)) < 2 ^ 64" by simp
  then have "SideCrossOrder_make srt c =
     Inr (\<lparr>view = alternate_ends True (srt (<) (data c)), idx = 0\<rparr>,
          \<lparr>view = alternate_ends True (srt (<) (data c)), idx = length (srt (<) (data c))\<rparr>)"
    by (rule SideCrossOrder_make_eq)
  with SideCrossOrder l show ?thesis
    by (simp add: make_of_def order_seq_def)
next
  case MiddleOutOrder
  with MiddleOutOrder_make_eq [OF len] show ?thesis
    by (simp add: make_of_def order_seq_def)
qed

lemma length_order_seq:
  assumes "k \<in> {AscendingOrder, DescendingOrder, SideCrossOrder} \<Longrightarrow> std_sort_contract srt"
  shows "length (order_seq k srt xs) = length xs"
  using assms
  by (cases k)
    (simp_all add: order_seq_def std_sort_contract_length length_alternate_ends
      length_middle_out_spec)

lemma std_sort_contract_mset:
  "std_sort_contract srt \<Longrightarrow> mset (srt (<) xs) = mset xs"
  "std_sort_contract srt \<Longrightarrow> mset (srt std_greater xs) = mset xs"
  by (simp_all add: std_sort_contract_def sorts_by_def)

lemma mset_order_seq:
  assumes "k \<in> {AscendingOrder, DescendingOrder, SideCrossOrder} \<Longrightarrow> std_sort_contract srt"
  shows "mset (order_seq k srt xs) = mset xs"
  using assms
  by (cases k)
    (simp_all add: order_seq_def std_sort_contract_mset mset_alternate_ends
      mset_middle_out_spec)

lemma pre_inc_funpow:
  "idx it + k < 2 ^ 64 \<Longrightarrow> (pre_inc ^^ k) it = it\<lparr>idx := idx it + k\<rparr>"
proof (induction k)
  case 0
  show ?case by simp
next
  case (Suc k)
  then have ih: "(pre_inc ^^ k) it = it\<lparr>idx := idx it + k\<rparr>" by simp
  have inc: "size_t_inc (idx it + k) = idx it + k + 1"
    using Suc.prems by (intro size_t_inc_small) simp
  have "(pre_inc ^^ Suc k) it = pre_inc ((pre_inc ^^ k) it)" by simp
  also have "\<dots> = pre_inc (it\<lparr>idx := idx it + k\<rparr>)" by (simp only: ih)
  also have "\<dots> = it\<lparr>idx := idx it + Suc k\<rparr>" by (simp add: pre_inc_def inc)
  finally show ?case .
qed

text \<open>
  Claim C5. For each of the six kinds, the begin and the end method return iterators that
  are equal exactly when the container is empty, and \<^verbatim>\<open>size()\<close> advances of the begin
  iterator give an iterator equal to the end iterator. (\<^verbatim>\<open>std::sort\<close> is within its contract
  where the kind sorts; a vector has fewer than \<open>2 ^ 63\<close> elements.)
\<close>

theorem begin_equals_end_iff_empty:
  assumes "k \<in> {AscendingOrder, DescendingOrder, SideCrossOrder} \<Longrightarrow> std_sort_contract srt"
    and "length (data c) < 2 ^ 63"
  shows "\<exists>b e. begin_iterator k srt c = Some (Inr b) \<and> end_iterator k srt c = Some (Inr e)
           \<and> (equals b e \<longleftrightarrow> data c = [])
           \<and> equals ((pre_inc ^^ size_of c) b) e"
proof -
  let ?v = "order_seq k srt (data c)"
  let ?b = "\<lparr>view = ?v, idx = 0\<rparr>" and ?e = "\<lparr>view = ?v, idx = length (data c)\<rparr>"
  have mk: "make_of k srt c = Some (Inr (?b, ?e))"
    using assms by (rule make_of_eq)
  have b: "begin_iterator k srt c = Some (Inr ?b)" and e: "end_iterator k srt c = Some (Inr ?e)"
    using mk by (simp_all add: begin_iterator_def end_iterator_def)
  have eq: "equals ?b ?e \<longleftrightarrow> data c = []"
    by (auto simp: equals_def)
  have "idx ?b + size_of c < 2 ^ 64"
    using assms(2) two_63_less_64 by (simp add: size_of_def)
  then have "(pre_inc ^^ size_of c) ?b = ?b\<lparr>idx := idx ?b + size_of c\<rparr>"
    by (rule pre_inc_funpow)
  then have adv: "equals ((pre_inc ^^ size_of c) ?b) ?e"
    by (simp add: equals_def size_of_def)
  from b e eq adv show ?thesis by blast
qed

theorem begin_equals_end_witness:
  "\<exists>b e. begin_iterator SideCrossOrder tie_reversing_sort \<lparr>data = [3, 1, 2 :: int]\<rparr> = Some (Inr b)
       \<and> end_iterator SideCrossOrder tie_reversing_sort \<lparr>data = [3, 1, 2 :: int]\<rparr> = Some (Inr e)
       \<and> \<not> equals b e
       \<and> equals (pre_inc (pre_inc (pre_inc b))) e"
proof -
  have "length (data \<lparr>data = [3, 1, 2 :: int]\<rparr>) < 2 ^ 63" by simp
  from begin_equals_end_iff_empty [OF std_sort_contract_tie_reversing_sort this,
      of SideCrossOrder]
  show ?thesis by (simp add: size_of_def numeral_3_eq_3)
qed

text \<open>
  Claim C9. For each of the six kinds, \<^verbatim>\<open>make\<close> returns a pair of iterators over one
  sequence, which has the length and the elements of the snapshot, each as often as the
  snapshot has it.
\<close>

theorem traversal_is_permutation:
  assumes "k \<in> {AscendingOrder, DescendingOrder, SideCrossOrder} \<Longrightarrow> std_sort_contract srt"
    and "length (data c) < 2 ^ 63"
  shows "\<exists>b e. make_of k srt c = Some (Inr (b, e))
           \<and> view e = view b
           \<and> length (view b) = length (data c)
           \<and> mset (view b) = mset (data c)"
proof -
  let ?v = "order_seq k srt (data c)"
  have "make_of k srt c =
      Some (Inr (\<lparr>view = ?v, idx = 0\<rparr>, \<lparr>view = ?v, idx = length (data c)\<rparr>))"
    using assms by (rule make_of_eq)
  moreover have "length ?v = length (data c)"
    using assms(1) by (rule length_order_seq)
  moreover have "mset ?v = mset (data c)"
    using assms(1) by (rule mset_order_seq)
  ultimately show ?thesis by simp
qed

theorem traversal_is_permutation_witness:
  "\<exists>b e. make_of MiddleOutOrder tie_reversing_sort \<lparr>data = [3, 1, 2, 1 :: int]\<rparr> = Some (Inr (b, e))
       \<and> view e = view b \<and> length (view b) = length [3, 1, 2, 1 :: int]
       \<and> mset (view b) = mset [3, 1, 2, 1 :: int]"
proof -
  have "length (data \<lparr>data = [3, 1, 2, 1 :: int]\<rparr>) < 2 ^ 63" by simp
  from traversal_is_permutation [OF std_sort_contract_tie_reversing_sort this,
      of MiddleOutOrder]
  show ?thesis by simp
qed



section \<open>Iterators and later changes of the container\<close>

lemma st_mutate_other: "a \<noteq> this \<Longrightarrow> cells (st_mutate this m s) a = cells s a"
  by (cases m) (auto simp: st_addElement_def st_removeElement_def split: option.splits)

lemma st_mutate_this:
  "cells s this = Some xs \<Longrightarrow>
     cells (st_mutate this m s) this = Some (data (mutate m \<lparr>data = xs\<rparr>))"
  by (cases m) (auto simp: st_addElement_def st_removeElement_def)

lemma fold_st_mutate_other:
  "a \<noteq> this \<Longrightarrow> cells (fold (st_mutate this) ms s) a = cells s a"
  by (induction ms arbitrary: s) (simp_all add: st_mutate_other)

lemma fold_st_mutate_this:
  "cells s this = Some xs \<Longrightarrow>
     cells (fold (st_mutate this) ms s) this = Some (data (fold mutate ms \<lparr>data = xs\<rparr>))"
proof (induction ms arbitrary: s xs)
  case Nil
  then show ?case by simp
next
  case (Cons m ms)
  have "cells (st_mutate this m s) this = Some (data (mutate m \<lparr>data = xs\<rparr>))"
    using Cons.prems by (rule st_mutate_this)
  then have "cells (fold (st_mutate this) ms (st_mutate this m s)) this =
      Some (data (fold mutate ms \<lparr>data = data (mutate m \<lparr>data = xs\<rparr>)\<rparr>))"
    by (rule Cons.IH)
  moreover have "\<lparr>data = data (mutate m \<lparr>data = xs\<rparr>)\<rparr> = mutate m \<lparr>data = xs\<rparr>"
    by simp
  ultimately show ?case by simp
qed

lemma st_make_eq:
  assumes "cells s this = Some xs" and "make_of k srt \<lparr>data = xs\<rparr> = Some (Inr (b, e))"
  shows "st_make k srt this s =
     (Some (Inr (\<lparr>view_ref = next_addr s, cursor = idx b\<rparr>,
                 \<lparr>view_ref = next_addr s + 1, cursor = idx e\<rparr>)),
      s\<lparr>cells := (cells s)(next_addr s \<mapsto> view b, next_addr s + 1 \<mapsto> view e),
        next_addr := next_addr s + 2\<rparr>)"
  using assms by (simp add: st_make_def getData_ref_def new_vector_def)

text \<open>
  Claim C7. Let \<^verbatim>\<open>make\<close> of any kind return a pair for a container. After any later
  sequence of \<^verbatim>\<open>addElement\<close> and \<^verbatim>\<open>removeElement\<close> calls on that container, each of the two
  iterator objects still stands for the iterator that \<^verbatim>\<open>make\<close> computes from the contents
  at construction time, with its sequence and its index, while the vector of the
  container holds what the calls made of it. Dereference, advance and equality are
  functions of that iterator.
\<close>

theorem iterators_unaffected_by_mutation:
  assumes "this < next_addr s" and "cells s this = Some xs"
    and "make_of k srt \<lparr>data = xs\<rparr> = Some (Inr (b, e))"
  shows "\<exists>bo eo s1. st_make k srt this s = (Some (Inr (bo, eo)), s1)
      \<and> (\<forall>ms. iterator_value bo (fold (st_mutate this) ms s1) = Some b
             \<and> iterator_value eo (fold (st_mutate this) ms s1) = Some e
             \<and> cells (fold (st_mutate this) ms s1) this = Some (data (fold mutate ms \<lparr>data = xs\<rparr>)))"
proof -
  let ?bo = "\<lparr>view_ref = next_addr s, cursor = idx b\<rparr>"
  let ?eo = "\<lparr>view_ref = next_addr s + 1, cursor = idx e\<rparr>"
  let ?s1 = "s\<lparr>cells := (cells s)(next_addr s \<mapsto> view b, next_addr s + 1 \<mapsto> view e),
        next_addr := next_addr s + 2\<rparr>"
  have mk: "st_make k srt this s = (Some (Inr (?bo, ?eo)), ?s1)"
    using assms(2,3) by (rule st_make_eq)
  have ne: "next_addr s \<noteq> this" "next_addr s + 1 \<noteq> this"
    using assms(1) by simp_all
  have this1: "cells ?s1 this = Some xs"
    using assms(1,2) by simp
  have "iterator_value ?bo (fold (st_mutate this) ms ?s1) = Some b
      \<and> iterator_value ?eo (fold (st_mutate this) ms ?s1) = Some e
      \<and> cells (fold (st_mutate this) ms ?s1) this = Some (data (fold mutate ms \<lparr>data = xs\<rparr>))"
    for ms
  proof -
    have "cells (fold (st_mutate this) ms ?s1) (next_addr s) = cells ?s1 (next_addr s)"
      using ne(1) by (rule fold_st_mutate_other)
    then have b: "iterator_value ?bo (fold (st_mutate this) ms ?s1) = Some b"
      by (simp add: iterator_value_def)
    have "cells (fold (st_mutate this) ms ?s1) (next_addr s + 1) = cells ?s1 (next_addr s + 1)"
      using ne(2) by (rule fold_st_mutate_other)
    then have e: "iterator_value ?eo (fold (st_mutate this) ms ?s1) = Some e"
      by (simp add: iterator_value_def)
    have c: "cells (fold (st_mutate this) ms ?s1) this = Some (data (fold mutate ms \<lparr>data = xs\<rparr>))"
      using this1 by (rule fold_st_mutate_this)
    from b e c show ?thesis by blast
  qed
  with mk show ?thesis by blast
qed

theorem iterators_unaffected_witness:
  "\<exists>bo eo s1.
     st_make SideCrossOrder tie_reversing_sort 0
       \<lparr>cells = (\<lambda>a. None)(0 \<mapsto> [7, 15, 6, 1, 2 :: int]), next_addr = 1\<rparr> = (Some (Inr (bo, eo)), s1)
     \<and> iterator_value bo (fold (st_mutate 0) [Add 100, Remove (Outside 7)] s1)
         = Some \<lparr>view = [1, 15, 2, 7, 6], idx = 0\<rparr>
     \<and> iterator_value eo (fold (st_mutate 0) [Add 100, Remove (Outside 7)] s1)
         = Some \<lparr>view = [1, 15, 2, 7, 6], idx = 5\<rparr>
     \<and> cells (fold (st_mutate 0) [Add 100, Remove (Outside 7)] s1) 0 = Some [15, 6, 1, 2, 100]"
proof -
  let ?s = "\<lparr>cells = (\<lambda>a. None)(0 \<mapsto> [7, 15, 6, 1, 2 :: int]), next_addr = 1\<rparr>"
  have a: "0 < next_addr ?s" by simp
  have b: "cells ?s 0 = Some [7, 15, 6, 1, 2]" by simp
  have "length (data \<lparr>data = [7, 15, 6, 1, 2 :: int]\<rparr>) < 2 ^ 63" by simp
  then have "make_of SideCrossOrder tie_reversing_sort \<lparr>data = [7, 15, 6, 1, 2 :: int]\<rparr> =
     Some (Inr (\<lparr>view = order_seq SideCrossOrder tie_reversing_sort (data \<lparr>data = [7, 15, 6, 1, 2 :: int]\<rparr>), idx = 0\<rparr>,
                \<lparr>view = order_seq SideCrossOrder tie_reversing_sort (data \<lparr>data = [7, 15, 6, 1, 2 :: int]\<rparr>),
                   idx = length (data \<lparr>data = [7, 15, 6, 1, 2 :: int]\<rparr>)\<rparr>))"
    by (intro make_of_eq std_sort_contract_tie_reversing_sort)
  then have c: "make_of SideCrossOrder tie_reversing_sort \<lparr>data = [7, 15, 6, 1, 2 :: int]\<rparr> =
     Some (Inr (\<lparr>view = [1, 15, 2, 7, 6], idx = 0\<rparr>, \<lparr>view = [1, 15, 2, 7, 6], idx = 5\<rparr>))"
    by (simp add: order_seq_def tie_reversing_sort_def stable_sort_def)
  obtain bo eo s1 where
    mk: "st_make SideCrossOrder tie_reversing_sort 0 ?s = (Some (Inr (bo, eo)), s1)"
    and fr: "\<And>ms. iterator_value bo (fold (st_mutate 0) ms s1) = Some \<lparr>view = [1, 15, 2, 7, 6], idx = 0\<rparr>
      \<and> iterator_value eo (fold (st_mutate 0) ms s1) = Some \<lparr>view = [1, 15, 2, 7, 6], idx = 5\<rparr>
      \<and> cells (fold (st_mutate 0) ms s1) 0 = Some (data (fold mutate ms \<lparr>data = [7, 15, 6, 1, 2]\<rparr>))"
    using iterators_unaffected_by_mutation [OF a b c] by blast
  have "data (fold mutate [Add 100, Remove (Outside 7)] \<lparr>data = [7, 15, 6, 1, 2 :: int]\<rparr>) = [15, 6, 1, 2, 100]"
    by (simp add: addElement_def removeElement_def std_remove_def Let_def find_equal.simps
        remove_loop.simps)
  with mk fr [of "[Add 100, Remove (Outside 7)]"] show ?thesis
    by (intro exI [of _ bo] exI [of _ eo] exI [of _ s1]) simp
qed

end
